theory Spec2Isabelle
  imports Main "HOL-Library.Product_Lexorder"
begin

section \<open>The storage engine\<close>

text \<open>
  The library is a thin layer over the browser's IndexedDB engine.  The engine is not part
  of the repository; this section fixes the part of its behaviour that the library calls:
  object stores with an optional key path, secondary indexes, transactions with a request
  queue, and the events the engine dispatches while it works a transaction off.

  Keys are any linearly ordered type \<open>'k\<close>, values any type \<open>'v\<close>.  How the engine
  evaluates a key path on a value is a parameter \<open>ev\<close> of the operations that need it.
  Which strings the engine takes for a key path is a parameter \<open>valid\<close> of the operations
  that create an index.  Key generators (\<open>autoIncrement\<close>) are left out: stores have no
  key generator.  An index keeps its parameters \<open>unique\<close> and \<open>multiEntry\<close>.  A write that
  a unique index refuses is a failure of the engine.  The key that \<open>ev\<close> gives for a value
  is one key, never an array of keys to be entered one by one, so that \<open>multiEntry\<close> makes
  no difference to the entries of an index.  Failures inside the engine
  (constraint violations, quota, I/O) are an explicit argument of every run: the step at
  which the engine fails, and the error it reports.
\<close>

datatype error =
    JsError string
  | DataError
  | ReadOnlyError
  | NotFoundError
  | ConstraintError
  | SyntaxError
  | AbortError
  | VersionError
  | UnknownError

datatype mode = Readonly | Readwrite

record 'k key_range =
  lower :: "'k option"
  upper :: "'k option"
  lowerOpen :: bool
  upperOpen :: bool

definition in_range :: "('k::linorder) key_range option \<Rightarrow> 'k \<Rightarrow> bool" where
  "in_range r k =
     (case r of
        None \<Rightarrow> True
      | Some kr \<Rightarrow>
          (case lower kr of None \<Rightarrow> True | Some l \<Rightarrow> if lowerOpen kr then l < k else l \<le> k) \<and>
          (case upper kr of None \<Rightarrow> True | Some u \<Rightarrow> if upperOpen kr then k < u else k \<le> u))"

text \<open>\<open>IDBIndexParameters\<close>; a member that is left out is \<open>false\<close>.\<close>

record index_parameters =
  unique :: bool
  multiEntry :: bool

text \<open>A store has its indexes by name, each with its key path and its parameters.\<close>

record ('k, 'v) object_store =
  osKeyPath :: "string option"
  osRecords :: "('k \<times> 'v) list"
  osIndexes :: "(string \<times> string \<times> index_parameters) list"

record ('k, 'v) database =
  dbVersion :: nat
  objectStores :: "(string \<times> ('k, 'v) object_store) list"

definition contains :: "string list \<Rightarrow> string \<Rightarrow> bool" where
  "contains names n = (n \<in> set names)"

definition objectStoreNames :: "('k, 'v) database \<Rightarrow> string list" where
  "objectStoreNames db = map fst (objectStores db)"

definition indexNames :: "('k, 'v) object_store \<Rightarrow> string list" where
  "indexNames s = map fst (osIndexes s)"

text \<open>The key paths of the indexes of a store, by name.\<close>

definition index_paths :: "('k, 'v) object_store \<Rightarrow> (string \<times> string) list" where
  "index_paths s = map (\<lambda>ix. (fst ix, fst (snd ix))) (osIndexes s)"

text \<open>\<open>db.createObjectStore(name, parameters?)\<close>: the new store is empty and has the
  key path of the parameters, none when the parameters are left out.\<close>

definition createObjectStore ::
  "('k, 'v) database \<Rightarrow> string \<Rightarrow> string option \<Rightarrow> error + (('k, 'v) database \<times> ('k, 'v) object_store)"
where
  "createObjectStore db n kp =
     (if contains (objectStoreNames db) n then Inl ConstraintError
      else let s = \<lparr>osKeyPath = kp, osRecords = [], osIndexes = []\<rparr>
           in Inr (db\<lparr>objectStores := objectStores db @ [(n, s)]\<rparr>, s))"

text \<open>\<open>transaction.objectStore(name)\<close>.\<close>

definition objectStore :: "('k, 'v) database \<Rightarrow> string \<Rightarrow> error + ('k, 'v) object_store" where
  "objectStore db n =
     (case map_of (objectStores db) n of None \<Rightarrow> Inl NotFoundError | Some s \<Rightarrow> Inr s)"

text \<open>\<open>store.createIndex(name, keyPath, parameters?)\<close>: the engine refuses a name the
  store has an index for, then a key path that is not valid.\<close>

definition createIndex ::
  "(string \<Rightarrow> bool) \<Rightarrow> ('k, 'v) object_store \<Rightarrow> string \<Rightarrow> string \<Rightarrow> index_parameters option
     \<Rightarrow> error + ('k, 'v) object_store"
where
  "createIndex valid s n kp parameters =
     (if contains (indexNames s) n then Inl ConstraintError
      else if \<not> valid kp then Inl SyntaxError
      else Inr (s\<lparr>osIndexes := osIndexes s @
                 [(n, kp, case parameters of
                            None \<Rightarrow> \<lparr>unique = False, multiEntry = False\<rparr>
                          | Some ps \<Rightarrow> ps)]\<rparr>))"

text \<open>A store handle is a live view of the store in the database: what is done through
  the handle is written back under the store's name.\<close>

fun putStore ::
  "string \<Rightarrow> ('k, 'v) object_store \<Rightarrow> (string \<times> ('k, 'v) object_store) list
     \<Rightarrow> (string \<times> ('k, 'v) object_store) list"
where
  "putStore n s [] = []"
| "putStore n s ((m, t) # rest) = (if m = n then (n, s) # rest else (m, t) # putStore n s rest)"

section \<open>Store descriptors and the schema migrator\<close>

text \<open>\<open>IDBStoreOptions\<close>: the declared key path and the index declarations, each the
  argument list of \<open>createIndex\<close> (index name, key path, parameters if any).\<close>

record store_options =
  keyPath :: "string option"
  indexes :: "(string \<times> string \<times> index_parameters option) list option"

text \<open>The two private fields \<open>store\<close> and \<open>storeIndex\<close> of \<open>IDBStore\<close> hold closures: the
  ones of the field initialisers, which throw, until \<open>register\<close> replaces both by closures
  over the open connection.\<close>

datatype opener = Uninitialized | Connected

record store_handle =
  name :: string
  options :: store_options
  opener :: opener

definition IDBStore :: "string \<Rightarrow> store_options \<Rightarrow> store_handle" where
  "IDBStore n opts = \<lparr>name = n, options = opts, opener = Uninitialized\<rparr>"

fun createIndexes ::
  "(string \<Rightarrow> bool) \<Rightarrow> (string \<times> string \<times> index_parameters option) list
     \<Rightarrow> ('k, 'v) object_store \<Rightarrow> error + ('k, 'v) object_store"
where
  "createIndexes valid [] s = Inr s"
| "createIndexes valid (index # rest) s =
     (if \<not> contains (indexNames s) (fst index) then
        (case createIndex valid s (fst index) (fst (snd index)) (snd (snd index)) of
           Inl e \<Rightarrow> Inl e
         | Inr s' \<Rightarrow> createIndexes valid rest s')
      else createIndexes valid rest s)"

text \<open>\<open>IDBStore.upgrade\<close>.  The store is created by \<open>db.createObjectStore(name)\<close>: the
  call passes no parameters.\<close>

definition upgrade ::
  "(string \<Rightarrow> bool) \<Rightarrow> store_handle \<Rightarrow> ('k, 'v) database \<Rightarrow> error + ('k, 'v) database"
where
  "upgrade valid h db =
     (case (if \<not> contains (objectStoreNames db) (name h)
            then createObjectStore db (name h) None
            else (case objectStore db (name h) of Inl e \<Rightarrow> Inl e | Inr s \<Rightarrow> Inr (db, s))) of
        Inl e \<Rightarrow> Inl e
      | Inr (db1, s) \<Rightarrow>
          (case indexes (options h) of
             None \<Rightarrow> Inr db1
           | Some ixs \<Rightarrow>
               (case createIndexes valid ixs s of
                  Inl e \<Rightarrow> Inl e
                | Inr s' \<Rightarrow> Inr (db1\<lparr>objectStores := putStore (name h) s' (objectStores db1)\<rparr>))))"

definition register :: "store_handle \<Rightarrow> store_handle" where
  "register h = h\<lparr>opener := Connected\<rparr>"

text \<open>\<open>iterate(obj, cb)\<close> calls \<open>cb\<close> on every property of the object in the order of
  \<open>Object.keys\<close>; an exception of \<open>cb\<close> ends the loop.\<close>

fun iterate ::
  "(string \<times> 'a) list \<Rightarrow> (string \<Rightarrow> 'a \<Rightarrow> 's \<Rightarrow> error + 's) \<Rightarrow> 's \<Rightarrow> error + 's"
where
  "iterate [] cb s = Inr s"
| "iterate ((key, v) # rest) cb s =
     (case cb key v s of Inl e \<Rightarrow> Inl e | Inr s' \<Rightarrow> iterate rest cb s')"

text \<open>The handler \<open>request.onupgradeneeded\<close> of \<open>IDBDatabase.init\<close>: the schema migrator.\<close>

definition onupgradeneeded ::
  "(string \<Rightarrow> bool) \<Rightarrow> (string \<times> store_handle) list \<Rightarrow> ('k, 'v) database
     \<Rightarrow> error + ('k, 'v) database"
where
  "onupgradeneeded valid sts db = iterate sts (\<lambda>_ st. upgrade valid st) db"

section \<open>Requests, events and promises\<close>

text \<open>A transaction holds the requests placed on it, in the order they were placed.\<close>

datatype ('k, 'v) request =
    Get 'k
  | Put 'k 'v
  | Delete 'k
  | Clear
  | IndexGet string 'k
  | OpenCursor "'k key_range option"
  | IndexOpenCursor string "'k key_range option"

record ('k, 'v) transaction =
  txStore :: string
  txMode :: mode
  txRequests :: "('k, 'v) request list"

text \<open>The objects events are dispatched at: a request, numbered by its place in the
  transaction, or the transaction itself.\<close>

datatype handle = Request nat | Transaction

datatype signal = Onsuccess | Onerror | Oncomplete | Onabort

text \<open>What the attribute \<open>result\<close> of an event target can hold: a cursor is given by its
  key, its primary key and its value.\<close>

datatype ('k, 'v) result = Undefined | Value 'v | Key 'k | Cursor 'k 'k 'v | Null

text \<open>One handler invocation: the target, the handler slot, and the target's attributes
  \<open>result\<close> and \<open>error\<close> as the handler reads them (\<open>None\<close> is \<open>null\<close>).\<close>

record ('k, 'v) dispatch =
  target :: handle
  signal :: signal
  result :: "('k, 'v) result"
  error :: "error option"

text \<open>A promise is rejected with the value of an \<open>error\<close> attribute, or with the event
  object where the code passes \<open>reject\<close> itself as the handler.\<close>

datatype reason = ErrorValue "error option" | EventObject

datatype 'a settlement = Pending | Resolved 'a | Rejected reason

definition resolve :: "'a \<Rightarrow> 'a settlement \<Rightarrow> 'a settlement" where
  "resolve v p = (case p of Pending \<Rightarrow> Resolved v | _ \<Rightarrow> p)"

definition reject :: "reason \<Rightarrow> 'a settlement \<Rightarrow> 'a settlement" where
  "reject r p = (case p of Pending \<Rightarrow> Rejected r | _ \<Rightarrow> p)"

text \<open>A promise together with the handlers that settle it: its state when the method
  returns, and what a dispatch does to the state.  The flag says whether the handler called
  \<open>continue()\<close> on the cursor it was given.\<close>

record ('k, 'v, 's) promise =
  initial :: 's
  listen :: "('k, 'v) dispatch \<Rightarrow> 's \<Rightarrow> 's \<times> bool"

subsection \<open>Placing requests\<close>

definition db_transaction ::
  "('k, 'v) database \<Rightarrow> string \<Rightarrow> mode \<Rightarrow> error + ('k, 'v) transaction"
where
  "db_transaction db n m =
     (if contains (objectStoreNames db) n
      then Inr \<lparr>txStore = n, txMode = m, txRequests = []\<rparr>
      else Inl NotFoundError)"

definition place ::
  "('k, 'v) request \<Rightarrow> ('k, 'v) transaction \<Rightarrow> ('k, 'v) transaction \<times> (error + handle)"
where
  "place rq tx = (tx\<lparr>txRequests := txRequests tx @ [rq]\<rparr>, Inr (Request (length (txRequests tx))))"

definition store_get ::
  "'k \<Rightarrow> ('k, 'v) transaction \<Rightarrow> ('k, 'v) transaction \<times> (error + handle)"
where
  "store_get k tx = place (Get k) tx"

text \<open>\<open>store.put(value, key?)\<close> checks the key before the request is placed: a store with a
  key path takes no key argument and needs a key in the value; a store without one needs
  the key argument.\<close>

definition store_put ::
  "(string \<Rightarrow> 'v \<Rightarrow> 'k option) \<Rightarrow> ('k, 'v) object_store \<Rightarrow> 'v \<Rightarrow> 'k option
     \<Rightarrow> ('k, 'v) transaction \<Rightarrow> ('k, 'v) transaction \<times> (error + handle)"
where
  "store_put ev s v key tx =
     (if txMode tx = Readonly then (tx, Inl ReadOnlyError)
      else (case osKeyPath s of
              Some kp \<Rightarrow>
                (case key of
                   Some _ \<Rightarrow> (tx, Inl DataError)
                 | None \<Rightarrow>
                     (case ev kp v of
                        None \<Rightarrow> (tx, Inl DataError)
                      | Some k \<Rightarrow> place (Put k v) tx))
            | None \<Rightarrow>
                (case key of
                   None \<Rightarrow> (tx, Inl DataError)
                 | Some k \<Rightarrow> place (Put k v) tx)))"

definition store_delete ::
  "'k \<Rightarrow> ('k, 'v) transaction \<Rightarrow> ('k, 'v) transaction \<times> (error + handle)"
where
  "store_delete k tx =
     (if txMode tx = Readonly then (tx, Inl ReadOnlyError) else place (Delete k) tx)"

definition store_clear ::
  "('k, 'v) transaction \<Rightarrow> ('k, 'v) transaction \<times> (error + handle)"
where
  "store_clear tx =
     (if txMode tx = Readonly then (tx, Inl ReadOnlyError) else place Clear tx)"

definition store_openCursor ::
  "'k key_range option \<Rightarrow> ('k, 'v) transaction \<Rightarrow> ('k, 'v) transaction \<times> (error + handle)"
where
  "store_openCursor r tx = place (OpenCursor r) tx"

text \<open>\<open>store.index(name)\<close>; the index handle is the index's name.\<close>

definition store_index :: "('k, 'v) object_store \<Rightarrow> string \<Rightarrow> error + string" where
  "store_index s n = (if contains (indexNames s) n then Inr n else Inl NotFoundError)"

definition index_get ::
  "string \<Rightarrow> 'k \<Rightarrow> ('k, 'v) transaction \<Rightarrow> ('k, 'v) transaction \<times> (error + handle)"
where
  "index_get ix k tx = place (IndexGet ix k) tx"

definition index_openCursor ::
  "string \<Rightarrow> 'k key_range option \<Rightarrow> ('k, 'v) transaction
     \<Rightarrow> ('k, 'v) transaction \<times> (error + handle)"
where
  "index_openCursor ix r tx = place (IndexOpenCursor ix r) tx"

subsection \<open>Working a transaction off\<close>

text \<open>The records of a store are kept in ascending order of their keys, one per key.\<close>

fun store_record :: "('k::linorder) \<Rightarrow> 'v \<Rightarrow> ('k \<times> 'v) list \<Rightarrow> ('k \<times> 'v) list" where
  "store_record k v [] = [(k, v)]"
| "store_record k v ((k', v') # rs) =
     (if k < k' then (k, v) # (k', v') # rs
      else if k = k' then (k, v) # rs
      else (k', v') # store_record k v rs)"

definition delete_record :: "'k \<Rightarrow> ('k \<times> 'v) list \<Rightarrow> ('k \<times> 'v) list" where
  "delete_record k rs = filter (\<lambda>r. fst r \<noteq> k) rs"

text \<open>A cursor runs over entries: the position (key, primary key) and the value.  For a
  store the key is the primary key; for an index it is the key the index's key path gives,
  and a record whose value has no such key has no entry.  Entries are in ascending order
  of their positions.\<close>

definition store_entries :: "('k \<times> 'v) list \<Rightarrow> (('k \<times> 'k) \<times> 'v) list" where
  "store_entries rs = map (\<lambda>(k, v). ((k, k), v)) rs"

definition index_entries ::
  "(string \<Rightarrow> 'v \<Rightarrow> ('k::linorder) option) \<Rightarrow> string \<Rightarrow> ('k \<times> 'v) list \<Rightarrow> (('k \<times> 'k) \<times> 'v) list"
where
  "index_entries ev kp rs =
     sort_key fst
       (List.map_filter (\<lambda>(pk, v). map_option (\<lambda>ik. ((ik, pk), v)) (ev kp v)) rs)"

definition is_cursor :: "('k, 'v) request \<Rightarrow> bool" where
  "is_cursor rq = (case rq of OpenCursor _ \<Rightarrow> True | IndexOpenCursor _ _ \<Rightarrow> True | _ \<Rightarrow> False)"

definition cursor_range :: "('k, 'v) request \<Rightarrow> 'k key_range option" where
  "cursor_range rq = (case rq of OpenCursor r \<Rightarrow> r | IndexOpenCursor _ r \<Rightarrow> r | _ \<Rightarrow> None)"

definition source_entries ::
  "(string \<Rightarrow> 'v \<Rightarrow> ('k::linorder) option) \<Rightarrow> (string \<times> string) list \<Rightarrow> ('k, 'v) request
     \<Rightarrow> ('k \<times> 'v) list \<Rightarrow> (('k \<times> 'k) \<times> 'v) list"
where
  "source_entries ev ixs rq rs =
     (case rq of
        OpenCursor _ \<Rightarrow> store_entries rs
      | IndexOpenCursor n _ \<Rightarrow>
          (case map_of ixs n of None \<Rightarrow> [] | Some kp \<Rightarrow> index_entries ev kp rs)
      | _ \<Rightarrow> [])"

text \<open>The entries a cursor at position \<open>pos\<close> has still ahead of it: those in its range
  and, once it has a position, strictly after it.  A cursor moves to the first of them.\<close>

definition ahead ::
  "('k::linorder) key_range option \<Rightarrow> ('k \<times> 'k) option \<Rightarrow> ('k \<times> 'k) \<times> 'v \<Rightarrow> bool"
where
  "ahead r pos e =
     (in_range r (fst (fst e)) \<and> (case pos of None \<Rightarrow> True | Some q \<Rightarrow> q < fst e))"

definition iterate_cursor ::
  "(('k::linorder \<times> 'k) \<times> 'v) list \<Rightarrow> 'k key_range option \<Rightarrow> ('k \<times> 'k) option
     \<Rightarrow> (('k \<times> 'k) \<times> 'v) option"
where
  "iterate_cursor es r pos = find (ahead r pos) es"

text \<open>What a request does to the records when the engine gets to it: its result, the
  records afterwards, and for a cursor its new position.\<close>

definition perform ::
  "(string \<Rightarrow> 'v \<Rightarrow> ('k::linorder) option) \<Rightarrow> (string \<times> string) list \<Rightarrow> ('k, 'v) request
     \<Rightarrow> ('k \<times> 'k) option \<Rightarrow> ('k \<times> 'v) list
     \<Rightarrow> ('k, 'v) result \<times> ('k \<times> 'v) list \<times> ('k \<times> 'k) option"
where
  "perform ev ixs rq pos rs =
     (case rq of
        Get k \<Rightarrow> ((case map_of rs k of None \<Rightarrow> Undefined | Some v \<Rightarrow> Value v), rs, None)
      | Put k v \<Rightarrow> (Key k, store_record k v rs, None)
      | Delete k \<Rightarrow> (Undefined, delete_record k rs, None)
      | Clear \<Rightarrow> (Undefined, [], None)
      | IndexGet n k \<Rightarrow>
          ((case map_of ixs n of
              None \<Rightarrow> Undefined
            | Some kp \<Rightarrow>
                (case find (\<lambda>e. fst (fst e) = k) (index_entries ev kp rs) of
                   None \<Rightarrow> Undefined
                 | Some e \<Rightarrow> Value (snd e))), rs, None)
      | _ \<Rightarrow>
          (case iterate_cursor (source_entries ev ixs rq rs) (cursor_range rq) pos of
             None \<Rightarrow> (Null, rs, None)
           | Some e \<Rightarrow> (Cursor (fst (fst e)) (snd (fst e)) (snd e), rs, Some (fst e))))"

text \<open>The engine may fail at any step of a transaction: \<open>f = Some (n, e)\<close> makes step \<open>n\<close>
  (counted from 0; the step after the last request is the commit) fail with \<open>e\<close>.\<close>

definition fault :: "(nat \<times> error) option \<Rightarrow> nat \<Rightarrow> error option" where
  "fault f n = (case f of None \<Rightarrow> None | Some (m, e) \<Rightarrow> if m = n then Some e else None)"

fun deliver ::
  "(('k, 'v) dispatch \<Rightarrow> 's \<Rightarrow> 's \<times> bool) \<Rightarrow> ('k, 'v) dispatch list \<Rightarrow> 's
     \<Rightarrow> (('k, 'v) dispatch \<times> 's) list"
where
  "deliver h [] st = []"
| "deliver h (d # ds) st = (let st' = fst (h d st) in (d, st') # deliver h ds st')"

text \<open>A failed request gets an error event, which bubbles to the transaction while the
  transaction's own \<open>error\<close> is still \<open>null\<close>; then the transaction is aborted with the
  request's error: every request still waiting gets an error event with \<open>AbortError\<close>
  (bubbling likewise), and the transaction gets the abort event.\<close>

text \<open>The dispatches the engine makes: the success event of a request, and the complete
  and abort events of the transaction.\<close>

definition success :: "nat \<Rightarrow> ('k, 'v) result \<Rightarrow> ('k, 'v) dispatch" where
  "success i res = \<lparr>target = Request i, signal = Onsuccess, result = res, error = None\<rparr>"

definition completed :: "('k, 'v) dispatch" where
  "completed = \<lparr>target = Transaction, signal = Oncomplete, result = Undefined, error = None\<rparr>"

definition aborted :: "error \<Rightarrow> ('k, 'v) dispatch" where
  "aborted e = \<lparr>target = Transaction, signal = Onabort, result = Undefined, error = Some e\<rparr>"

definition abort_dispatches ::
  "nat \<Rightarrow> error \<Rightarrow> (nat \<times> ('k, 'v) request \<times> ('k \<times> 'k) option) list \<Rightarrow> ('k, 'v) dispatch list"
where
  "abort_dispatches i e q =
     [\<lparr>target = Request i, signal = Onerror, result = Undefined, error = Some e\<rparr>,
      \<lparr>target = Transaction, signal = Onerror, result = Undefined, error = None\<rparr>]
     @ concat (map (\<lambda>j.
         [\<lparr>target = Request (fst j), signal = Onerror, result = Undefined, error = Some AbortError\<rparr>,
          \<lparr>target = Transaction, signal = Onerror, result = Undefined, error = Some e\<rparr>]) q)
     @ [aborted e]"

text \<open>A cursor whose handler called \<open>continue()\<close> waits again, behind the requests
  already waiting.\<close>

definition requeue ::
  "bool \<Rightarrow> nat \<times> ('k, 'v) request \<times> ('k \<times> 'k) option
     \<Rightarrow> (nat \<times> ('k, 'v) request \<times> ('k \<times> 'k) option) list
     \<Rightarrow> (nat \<times> ('k, 'v) request \<times> ('k \<times> 'k) option) list"
where
  "requeue continued j q = (if continued \<and> snd (snd j) \<noteq> None then q @ [j] else q)"

text \<open>The event loop of one transaction.  The queue holds the waiting requests with
  their numbers and, for a cursor that was continued, its position.  The result is every
  dispatch with the listener's state after it, and the records if the transaction
  committed.\<close>

function event_loop ::
  "(string \<Rightarrow> 'v \<Rightarrow> ('k::linorder) option) \<Rightarrow> (string \<times> string) list \<Rightarrow> (nat \<times> error) option
     \<Rightarrow> (('k, 'v) dispatch \<Rightarrow> 's \<Rightarrow> 's \<times> bool) \<Rightarrow> nat
     \<Rightarrow> (nat \<times> ('k, 'v) request \<times> ('k \<times> 'k) option) list \<Rightarrow> ('k \<times> 'v) list \<Rightarrow> 's
     \<Rightarrow> (('k, 'v) dispatch \<times> 's) list \<times> ('k \<times> 'v) list option"
where
  "event_loop ev ixs f h n [] rs st =
     (case fault f n of
        Some e \<Rightarrow> (deliver h [aborted e] st, None)
      | None \<Rightarrow> (deliver h [completed] st, Some rs))"
| "event_loop ev ixs f h n ((i, rq, pos) # q) rs st =
     (case fault f n of
        Some e \<Rightarrow> (deliver h (abort_dispatches i e q) st, None)
      | None \<Rightarrow>
          (let out = perform ev ixs rq pos rs;
               r = h (success i (fst out)) st;
               rest = event_loop ev ixs f h (Suc n) (requeue (snd r) (i, rq, snd (snd out)) q)
                        (fst (snd out)) (fst r)
           in ((success i (fst out), fst r) # fst rest, snd rest)))"
  by pat_completeness auto

text \<open>The loop ends: a request that is no cursor is gone after its step, and a cursor that
  is continued has fewer entries ahead of it than before.\<close>

definition waiting_writes :: "(nat \<times> ('k, 'v) request \<times> ('k \<times> 'k) option) list \<Rightarrow> nat" where
  "waiting_writes q = length (filter (\<lambda>j. \<not> is_cursor (fst (snd j))) q)"

definition waiting_steps ::
  "(string \<Rightarrow> 'v \<Rightarrow> ('k::linorder) option) \<Rightarrow> (string \<times> string) list \<Rightarrow> ('k \<times> 'v) list
     \<Rightarrow> (nat \<times> ('k, 'v) request \<times> ('k \<times> 'k) option) list \<Rightarrow> nat"
where
  "waiting_steps ev ixs rs q =
     sum_list (map (\<lambda>j. Suc (length (filter (ahead (cursor_range (fst (snd j))) (snd (snd j)))
                                    (source_entries ev ixs (fst (snd j)) rs)))) q)"

termination event_loop
proof (relation "measures [\<lambda>(ev, ixs, f, h, n, q, rs, st). waiting_writes q,
                           \<lambda>(ev, ixs, f, h, n, q, rs, st). waiting_steps ev ixs rs q]", goal_cases)
  case 1
  show ?case by simp
next
  case (2 ev ixs f h n i rq pos q rs st out r)
  let ?es = "source_entries ev ixs rq rs"
  let ?r = "cursor_range rq"
  show ?case
  proof (cases "is_cursor rq")
    case False
    then have "snd (snd (perform ev ixs rq pos rs)) = None"
      by (cases rq) (simp_all add: perform_def is_cursor_def)
    with 2 False show ?thesis by (simp add: waiting_writes_def requeue_def)
  next
    case True
    then have rs: "fst (snd (perform ev ixs rq pos rs)) = rs"
      by (cases rq) (simp_all add: perform_def is_cursor_def split: option.splits)
    show ?thesis
    proof (cases "snd (snd out)")
      case None
      with 2 True rs show ?thesis by (simp add: waiting_writes_def waiting_steps_def requeue_def)
    next
      case (Some p)
      with 2 True obtain e where e: "iterate_cursor ?es ?r pos = Some e" and p: "p = fst e"
        by (cases rq) (auto simp: perform_def is_cursor_def split: option.splits)
      from e have mem: "e \<in> set ?es" and ah: "ahead ?r pos e"
        by (auto simp: iterate_cursor_def find_Some_iff)
      have notah: "\<not> ahead ?r (Some p) e" using p by (simp add: ahead_def)
      have mono: "ahead ?r pos y" if "ahead ?r (Some p) y" for y
        using that ah p by (auto simp: ahead_def split: option.splits)
      have le: "length (filter (ahead ?r (Some p)) xs) \<le> length (filter (ahead ?r pos) xs)" for xs
      proof (induction xs)
        case Nil
        show ?case by simp
      next
        case (Cons a xs)
        with mono [of a] show ?case by auto
      qed
      have "e \<in> set xs \<Longrightarrow>
          length (filter (ahead ?r (Some p)) xs) < length (filter (ahead ?r pos) xs)" for xs
      proof (induction xs)
        case Nil
        then show ?case by simp
      next
        case (Cons a xs)
        show ?case
        proof (cases "a = e")
          case True
          with ah notah le [of xs] show ?thesis by (simp add: less_Suc_eq_le)
        next
          case False
          with Cons mono [of a] show ?thesis by auto
        qed
      qed
      with mem have "length (filter (ahead ?r (Some p)) ?es) < length (filter (ahead ?r pos) ?es)"
        by blast
      with 2 True rs Some show ?thesis
        by (simp add: waiting_writes_def waiting_steps_def requeue_def)
    qed
  qed
qed

text \<open>One public call, seen from outside: the transactions it opened; what it returned
  (the exception it threw, or the state of the promise it returned, at the moment of
  returning); every dispatch the engine then made, with the state of the promise after
  each; and the database when the transaction is finished.\<close>

record ('k, 'v, 's) call =
  opened :: "(string \<times> mode) list"
  returned :: "error + 's"
  trace :: "('k, 'v) dispatch list"
  states :: "'s list"
  after :: "('k, 'v) database"

definition write_back ::
  "('k, 'v) database \<Rightarrow> string \<Rightarrow> ('k, 'v) object_store \<Rightarrow> ('k \<times> 'v) list option
     \<Rightarrow> ('k, 'v) database"
where
  "write_back db n s fin =
     (case fin of
        None \<Rightarrow> db
      | Some rs \<Rightarrow> db\<lparr>objectStores := putStore n (s\<lparr>osRecords := rs\<rparr>) (objectStores db)\<rparr>)"

text \<open>After the synchronous part of a call (the transaction it began, if any, with the
  requests placed on it, and the exception or promise it ended with), the engine works the
  transaction off.  A transaction whose creator threw runs all the same: nothing aborts
  it, and nobody listens.\<close>

definition run ::
  "(string \<Rightarrow> 'v \<Rightarrow> ('k::linorder) option) \<Rightarrow> (nat \<times> error) option \<Rightarrow> ('k, 'v) database
     \<Rightarrow> ('k, 'v) transaction option \<times> (error + ('k, 'v, 's) promise)
     \<Rightarrow> ('k, 'v, 's) call"
where
  "run ev f db sc =
     (case fst sc of
        None \<Rightarrow>
          \<lparr>opened = [], returned = map_sum id initial (snd sc), trace = [], states = [],
           after = db\<rparr>
      | Some tx \<Rightarrow>
          (case objectStore db (txStore tx) of
             Inl e \<Rightarrow>
               \<lparr>opened = [(txStore tx, txMode tx)], returned = map_sum id initial (snd sc),
                trace = [], states = [], after = db\<rparr>
           | Inr s \<Rightarrow>
               (let jobs = map (\<lambda>(i, rq). (i, rq, None)) (enumerate 0 (txRequests tx))
                in (case snd sc of
                      Inl e \<Rightarrow>
                        (let w = event_loop ev (index_paths s) f (\<lambda>d u. (u, False)) 0 jobs
                                   (osRecords s) ()
                         in \<lparr>opened = [(txStore tx, txMode tx)], returned = Inl e,
                             trace = map fst (fst w), states = [],
                             after = write_back db (txStore tx) s (snd w)\<rparr>)
                    | Inr p \<Rightarrow>
                        (let w = event_loop ev (index_paths s) f (listen p) 0 jobs
                                   (osRecords s) (initial p)
                         in \<lparr>opened = [(txStore tx, txMode tx)], returned = Inr (initial p),
                             trace = map fst (fst w), states = map snd (fst w),
                             after = write_back db (txStore tx) s (snd w)\<rparr>)))))"

text \<open>The promise in its last state (or the exception thrown).\<close>

definition outcome :: "('k, 'v, 's) call \<Rightarrow> error + 's" where
  "outcome c = (case returned c of Inl e \<Rightarrow> Inl e | Inr st \<Rightarrow> Inr (last (st # states c)))"

text \<open>The dispatch that settled the returned promise, where \<open>view\<close> reads the promise's
  settlement off the listener's state.\<close>

definition settling ::
  "('s \<Rightarrow> 'a settlement) \<Rightarrow> ('k, 'v, 's) call \<Rightarrow> ('k, 'v) dispatch option"
where
  "settling view c =
     (case returned c of
        Inl e \<Rightarrow> None
      | Inr st \<Rightarrow>
          if view st \<noteq> Pending then None
          else map_option fst (find (\<lambda>x. view (snd x) \<noteq> Pending) (zip (trace c) (states c))))"

section \<open>The request bridge\<close>

text \<open>\<open>promisify(request)\<close> sets the four handlers on the one object it is given.\<close>

definition promisify :: "handle \<Rightarrow> ('k, 'v, ('k, 'v) result settlement) promise" where
  "promisify request =
     \<lparr>initial = Pending,
      listen = (\<lambda>d p.
        (if target d = request then
           (case signal d of
              Oncomplete \<Rightarrow> resolve (result d) p
            | Onsuccess \<Rightarrow> resolve (result d) p
            | Onabort \<Rightarrow> reject (ErrorValue (error d)) p
            | Onerror \<Rightarrow> reject (ErrorValue (error d)) p)
         else p, False))\<rparr>"

text \<open>\<open>Promise.all\<close>: rejected as soon as one of the promises is, resolved with all the
  values once every one is resolved.\<close>

definition all_settled :: "'a settlement list \<Rightarrow> 'a list settlement \<Rightarrow> 'a list settlement" where
  "all_settled sts agg =
     (case agg of
        Pending \<Rightarrow>
          (case List.map_filter (\<lambda>s. case s of Rejected r \<Rightarrow> Some r | _ \<Rightarrow> None) sts of
             r # _ \<Rightarrow> Rejected r
           | [] \<Rightarrow>
               if list_all (\<lambda>s. s \<noteq> Pending) sts
               then Resolved (List.map_filter (\<lambda>s. case s of Resolved v \<Rightarrow> Some v | _ \<Rightarrow> None) sts)
               else Pending)
      | _ \<Rightarrow> agg)"

definition Promise_all ::
  "('k, 'v, 'a settlement) promise list
     \<Rightarrow> ('k, 'v, 'a settlement list \<times> 'a list settlement) promise"
where
  "Promise_all ps =
     \<lparr>initial = (map initial ps, all_settled (map initial ps) Pending),
      listen = (\<lambda>d st.
        (let sts = map (\<lambda>(p, s). fst (listen p d s)) (zip ps (fst st))
         in ((sts, all_settled sts (snd st)), False)))\<rparr>"

section \<open>The store handle\<close>

text \<open>The closure in the field \<open>store\<close>: the initial one throws; the one \<open>register\<close>
  installs opens a transaction on the store and hands the store to the callback.  The
  callback places requests on the transaction and ends with an exception or a value.\<close>

definition store ::
  "store_handle \<Rightarrow> ('k, 'v) database \<Rightarrow> mode
     \<Rightarrow> (('k, 'v) object_store \<Rightarrow> ('k, 'v) transaction \<Rightarrow> ('k, 'v) transaction \<times> (error + 'p))
     \<Rightarrow> ('k, 'v) transaction option \<times> (error + 'p)"
where
  "store h db m callback =
     (case opener h of
        Uninitialized \<Rightarrow> (None, Inl (JsError (''IDBStore '' @ name h @ '' is not initialized'')))
      | Connected \<Rightarrow>
          (case db_transaction db (name h) m of
             Inl e \<Rightarrow> (None, Inl e)
           | Inr tx \<Rightarrow>
               (case objectStore db (name h) of
                  Inl e \<Rightarrow> (Some tx, Inl e)
                | Inr s \<Rightarrow> (let r = callback s tx in (Some (fst r), snd r)))))"

definition storeIndex ::
  "store_handle \<Rightarrow> ('k, 'v) database \<Rightarrow> mode \<Rightarrow> string
     \<Rightarrow> (string \<Rightarrow> ('k, 'v) transaction \<Rightarrow> ('k, 'v) transaction \<times> (error + 'p))
     \<Rightarrow> ('k, 'v) transaction option \<times> (error + 'p)"
where
  "storeIndex h db m indexName callback =
     (case opener h of
        Uninitialized \<Rightarrow>
          (None, Inl (JsError (''IDBStoreIndex '' @ name h @ '' is not initialized'')))
      | Connected \<Rightarrow>
          store h db m (\<lambda>s tx.
            (case store_index s indexName of
               Inl e \<Rightarrow> (tx, Inl e)
             | Inr ix \<Rightarrow> callback ix tx)))"

text \<open>A callback that ends with \<open>return g(x)\<close> where \<open>x\<close> is what the engine call gave.\<close>

definition returning ::
  "('a \<Rightarrow> 'p) \<Rightarrow> ('k, 'v) transaction \<times> (error + 'a) \<Rightarrow> ('k, 'v) transaction \<times> (error + 'p)"
where
  "returning g r = (fst r, map_sum id g (snd r))"

definition get ::
  "(string \<Rightarrow> 'v \<Rightarrow> ('k::linorder) option) \<Rightarrow> (nat \<times> error) option \<Rightarrow> store_handle
     \<Rightarrow> ('k, 'v) database \<Rightarrow> 'k \<Rightarrow> ('k, 'v, ('k, 'v) result settlement) call"
where
  "get ev f h db key =
     run ev f db (store h db Readonly (\<lambda>s tx. returning promisify (store_get key tx)))"

definition getByIndex ::
  "(string \<Rightarrow> 'v \<Rightarrow> ('k::linorder) option) \<Rightarrow> (nat \<times> error) option \<Rightarrow> store_handle
     \<Rightarrow> ('k, 'v) database \<Rightarrow> string \<Rightarrow> 'k \<Rightarrow> ('k, 'v, ('k, 'v) result settlement) call"
where
  "getByIndex ev f h db indexName indexValue =
     run ev f db
       (storeIndex h db Readonly indexName
          (\<lambda>ix tx. returning promisify (index_get ix indexValue tx)))"

definition set_op ::
  "(string \<Rightarrow> 'v \<Rightarrow> ('k::linorder) option) \<Rightarrow> (nat \<times> error) option \<Rightarrow> store_handle
     \<Rightarrow> ('k, 'v) database \<Rightarrow> 'v \<Rightarrow> 'k option \<Rightarrow> ('k, 'v, ('k, 'v) result settlement) call"
where
  "set_op ev f h db v key =
     run ev f db
       (store h db Readwrite
          (\<lambda>s tx. returning (\<lambda>_. promisify Transaction) (store_put ev s v key tx)))"

text \<open>\<open>keys.map(key => promisify(store.get(key)))\<close>.\<close>

fun get_each ::
  "'k list \<Rightarrow> ('k, 'v) transaction
     \<Rightarrow> ('k, 'v) transaction \<times> (error + ('k, 'v, ('k, 'v) result settlement) promise list)"
where
  "get_each [] tx = (tx, Inr [])"
| "get_each (key # keys) tx =
     (case store_get key tx of
        (tx1, Inl e) \<Rightarrow> (tx1, Inl e)
      | (tx1, Inr request) \<Rightarrow>
          (case get_each keys tx1 of
             (tx2, Inl e) \<Rightarrow> (tx2, Inl e)
           | (tx2, Inr ps) \<Rightarrow> (tx2, Inr (promisify request # ps))))"

definition getMany ::
  "(string \<Rightarrow> 'v \<Rightarrow> ('k::linorder) option) \<Rightarrow> (nat \<times> error) option \<Rightarrow> store_handle
     \<Rightarrow> ('k, 'v) database \<Rightarrow> 'k list
     \<Rightarrow> ('k, 'v, ('k, 'v) result settlement list \<times> ('k, 'v) result list settlement) call"
where
  "getMany ev f h db keys =
     run ev f db (store h db Readonly (\<lambda>s tx. returning Promise_all (get_each keys tx)))"

text \<open>\<open>values.forEach(entry => store.put(entry))\<close>: an exception of \<open>put\<close> ends the loop.\<close>

fun put_each ::
  "(string \<Rightarrow> 'v \<Rightarrow> 'k option) \<Rightarrow> ('k, 'v) object_store \<Rightarrow> 'v list \<Rightarrow> ('k, 'v) transaction
     \<Rightarrow> ('k, 'v) transaction \<times> (error + unit)"
where
  "put_each ev s [] tx = (tx, Inr ())"
| "put_each ev s (entry # values) tx =
     (case store_put ev s entry None tx of
        (tx1, Inl e) \<Rightarrow> (tx1, Inl e)
      | (tx1, Inr _) \<Rightarrow> put_each ev s values tx1)"

definition setMany ::
  "(string \<Rightarrow> 'v \<Rightarrow> ('k::linorder) option) \<Rightarrow> (nat \<times> error) option \<Rightarrow> store_handle
     \<Rightarrow> ('k, 'v) database \<Rightarrow> 'v list \<Rightarrow> ('k, 'v, ('k, 'v) result settlement) call"
where
  "setMany ev f h db values =
     run ev f db
       (store h db Readwrite
          (\<lambda>s tx. returning (\<lambda>_. promisify Transaction) (put_each ev s values tx)))"

definition update ::
  "(string \<Rightarrow> 'v \<Rightarrow> ('k::linorder) option) \<Rightarrow> (nat \<times> error) option \<Rightarrow> store_handle
     \<Rightarrow> ('k, 'v) database \<Rightarrow> 'v \<Rightarrow> ('k, 'v, ('k, 'v) result settlement) call"
where
  "update ev f h db v =
     run ev f db
       (store h db Readwrite
          (\<lambda>s tx. returning (\<lambda>_. promisify Transaction) (store_put ev s v None tx)))"

definition del ::
  "(string \<Rightarrow> 'v \<Rightarrow> ('k::linorder) option) \<Rightarrow> (nat \<times> error) option \<Rightarrow> store_handle
     \<Rightarrow> ('k, 'v) database \<Rightarrow> 'k \<Rightarrow> ('k, 'v, ('k, 'v) result settlement) call"
where
  "del ev f h db key =
     run ev f db
       (store h db Readwrite
          (\<lambda>s tx. returning (\<lambda>_. promisify Transaction) (store_delete key tx)))"

definition clear ::
  "(string \<Rightarrow> 'v \<Rightarrow> ('k::linorder) option) \<Rightarrow> (nat \<times> error) option \<Rightarrow> store_handle
     \<Rightarrow> ('k, 'v) database \<Rightarrow> ('k, 'v, ('k, 'v) result settlement) call"
where
  "clear ev f h db =
     run ev f db
       (store h db Readwrite
          (\<lambda>s tx. returning (\<lambda>_. promisify Transaction) (store_clear tx)))"

text \<open>The promise \<open>cursor\<close> and \<open>cursorIndex\<close> build around the cursor request.  The visitor
  is given the cursor (key, primary key, value) and works on a state of its own.  An
  exception of \<open>openCursor\<close> inside the executor rejects the promise.\<close>

definition walk ::
  "('k \<times> 'k \<times> 'v \<Rightarrow> 'acc \<Rightarrow> 'acc) \<Rightarrow> 'acc \<Rightarrow> error + handle
     \<Rightarrow> ('k, 'v, 'acc \<times> unit settlement) promise"
where
  "walk callback acc r =
     (case r of
        Inl e \<Rightarrow> \<lparr>initial = (acc, Rejected (ErrorValue (Some e))), listen = (\<lambda>d st. (st, False))\<rparr>
      | Inr request \<Rightarrow>
          \<lparr>initial = (acc, Pending),
           listen = (\<lambda>d st.
             if target d = request then
               (case signal d of
                  Onsuccess \<Rightarrow>
                    (case result d of
                       Cursor k pk v \<Rightarrow> ((callback (k, pk, v) (fst st), snd st), True)
                     | _ \<Rightarrow> ((fst st, resolve () (snd st)), False))
                | Onerror \<Rightarrow> ((fst st, reject EventObject (snd st)), False)
                | _ \<Rightarrow> (st, False))
             else (st, False))\<rparr>)"

definition cursor ::
  "(string \<Rightarrow> 'v \<Rightarrow> ('k::linorder) option) \<Rightarrow> (nat \<times> error) option \<Rightarrow> store_handle
     \<Rightarrow> ('k, 'v) database \<Rightarrow> ('k \<times> 'k \<times> 'v \<Rightarrow> 'acc \<Rightarrow> 'acc) \<Rightarrow> 'acc \<Rightarrow> 'k key_range option
     \<Rightarrow> ('k, 'v, 'acc \<times> unit settlement) call"
where
  "cursor ev f h db callback acc keyRangeValue =
     run ev f db
       (store h db Readonly
          (\<lambda>s tx. let r = store_openCursor keyRangeValue tx
                  in (fst r, Inr (walk callback acc (snd r)))))"

definition cursorIndex ::
  "(string \<Rightarrow> 'v \<Rightarrow> ('k::linorder) option) \<Rightarrow> (nat \<times> error) option \<Rightarrow> store_handle
     \<Rightarrow> ('k, 'v) database \<Rightarrow> string \<Rightarrow> ('k \<times> 'k \<times> 'v \<Rightarrow> 'acc \<Rightarrow> 'acc) \<Rightarrow> 'acc
     \<Rightarrow> 'k key_range option \<Rightarrow> ('k, 'v, 'acc \<times> unit settlement) call"
where
  "cursorIndex ev f h db indexName callback acc keyRangeValue =
     run ev f db
       (storeIndex h db Readonly indexName
          (\<lambda>ix tx. let r = index_openCursor ix keyRangeValue tx
                   in (fst r, Inr (walk callback acc (snd r)))))"

text \<open>\<open>getAll\<close> and \<open>getAllByIndex\<close> are \<open>async\<close>: an exception becomes a rejection, and
  the promise resolves with \<open>items\<close> once the walk's promise has resolved.\<close>

definition awaited :: "'acc \<times> unit settlement \<Rightarrow> 'acc settlement" where
  "awaited st =
     (case snd st of
        Pending \<Rightarrow> Pending
      | Resolved _ \<Rightarrow> Resolved (fst st)
      | Rejected r \<Rightarrow> Rejected r)"

definition async_return ::
  "('k, 'v, 'acc \<times> unit settlement) call \<Rightarrow> ('k, 'v, 'acc settlement) call"
where
  "async_return c =
     \<lparr>opened = opened c,
      returned = Inr (case returned c of Inl e \<Rightarrow> Rejected (ErrorValue (Some e)) | Inr st \<Rightarrow> awaited st),
      trace = trace c,
      states = map awaited (states c),
      after = after c\<rparr>"

definition getAll ::
  "(string \<Rightarrow> 'v \<Rightarrow> ('k::linorder) option) \<Rightarrow> (nat \<times> error) option \<Rightarrow> store_handle
     \<Rightarrow> ('k, 'v) database \<Rightarrow> 'k key_range option \<Rightarrow> ('k, 'v, 'v list settlement) call"
where
  "getAll ev f h db keyRangeValue =
     async_return (cursor ev f h db (\<lambda>c items. items @ [snd (snd c)]) [] keyRangeValue)"

definition getAllByIndex ::
  "(string \<Rightarrow> 'v \<Rightarrow> ('k::linorder) option) \<Rightarrow> (nat \<times> error) option \<Rightarrow> store_handle
     \<Rightarrow> ('k, 'v) database \<Rightarrow> string \<Rightarrow> 'k key_range option \<Rightarrow> ('k, 'v, 'v list settlement) call"
where
  "getAllByIndex ev f h db indexName keyRangeValue =
     async_return
       (cursorIndex ev f h db indexName (\<lambda>c items. items @ [snd (snd c)]) [] keyRangeValue)"

section \<open>The database handle\<close>

record idb_database =
  dbName :: string
  version :: nat
  stores :: "(string \<times> store_handle) list"

text \<open>\<open>IDBDatabase.init\<close>.  \<open>indexedDB.open(dbName, version)\<close> fails when the engine does
  (\<open>fail\<close>) and when the stored version is higher; it signals \<open>upgradeneeded\<close> when the
  stored version is lower, and an exception of that handler aborts the upgrade and fails
  the open.  Only after the open has succeeded are the stores registered.\<close>

definition init ::
  "(string \<Rightarrow> bool) \<Rightarrow> idb_database \<Rightarrow> error option \<Rightarrow> ('k, 'v) database
     \<Rightarrow> unit settlement \<times> idb_database \<times> ('k, 'v) database"
where
  "init valid d fail db =
     (case fail of
        Some e \<Rightarrow> (Rejected (ErrorValue (Some e)), d, db)
      | None \<Rightarrow>
          if version d < dbVersion db then (Rejected (ErrorValue (Some VersionError)), d, db)
          else
            (case (if dbVersion db < version d
                   then (case onupgradeneeded valid (stores d) db of
                           Inl e \<Rightarrow> Inl AbortError
                         | Inr db1 \<Rightarrow> Inr (db1\<lparr>dbVersion := version d\<rparr>))
                   else Inr db) of
               Inl e \<Rightarrow> (Rejected (ErrorValue (Some e)), d, db)
             | Inr db1 \<Rightarrow>
                 (case iterate (stores d) (\<lambda>key st acc. Inr (acc @ [(key, register st)])) [] of
                    Inl e \<Rightarrow> (Rejected (ErrorValue (Some e)), d, db1)
                  | Inr sts \<Rightarrow> (Resolved (), d\<lparr>stores := sts\<rparr>, db1))))"

section \<open>The earlier store of src/index.ts\<close>

text \<open>In \<open>src/index.ts\<close> the field \<open>store\<close> is \<open>promisedIDB.then(db => callback(...))\<close>: its
  promise resolves with what the callback returns, as soon as the callback has returned.
  There \<open>cursor\<close> sets the success handler and returns nothing, and \<open>getAll\<close> pushes the
  cursor it is handed, not the cursor's value.  The model starts from an open database.\<close>

definition cursor_index_ts ::
  "(string \<Rightarrow> 'v \<Rightarrow> ('k::linorder) option) \<Rightarrow> (nat \<times> error) option \<Rightarrow> string
     \<Rightarrow> ('k, 'v) database \<Rightarrow> (('k, 'v) result \<Rightarrow> 'acc \<Rightarrow> 'acc) \<Rightarrow> 'acc \<Rightarrow> 'k key_range option
     \<Rightarrow> ('k, 'v, 'acc \<times> unit settlement) call"
where
  "cursor_index_ts ev f storeName db callback acc keyRangeValue =
     run ev f db
       (case db_transaction db storeName Readonly of
          Inl e \<Rightarrow>
            (None, Inr \<lparr>initial = (acc, Rejected (ErrorValue (Some e))), listen = (\<lambda>d st. (st, False))\<rparr>)
        | Inr tx \<Rightarrow>
            (case store_openCursor keyRangeValue tx of
               (tx1, Inl e) \<Rightarrow>
                 (Some tx1,
                  Inr \<lparr>initial = (acc, Rejected (ErrorValue (Some e))), listen = (\<lambda>d st. (st, False))\<rparr>)
             | (tx1, Inr request) \<Rightarrow>
                 (Some tx1,
                  Inr \<lparr>initial = (acc, Resolved ()),
                       listen = (\<lambda>d st.
                         if target d = request \<and> signal d = Onsuccess then
                           (case result d of
                              Cursor k pk v \<Rightarrow> ((callback (result d) (fst st), snd st), True)
                            | _ \<Rightarrow> (st, False))
                         else (st, False))\<rparr>)))"

definition getAll_index_ts ::
  "(string \<Rightarrow> 'v \<Rightarrow> ('k::linorder) option) \<Rightarrow> (nat \<times> error) option \<Rightarrow> string
     \<Rightarrow> ('k, 'v) database \<Rightarrow> 'k key_range option \<Rightarrow> ('k, 'v, ('k, 'v) result list settlement) call"
where
  "getAll_index_ts ev f storeName db keyRangeValue =
     async_return (cursor_index_ts ev f storeName db (\<lambda>c items. items @ [c]) [] keyRangeValue)"

section \<open>Predicates used in the statements\<close>

text \<open>A descriptor is satisfied by a database that has its store and, on it, every index
  the descriptor declares.\<close>

definition satisfied :: "store_handle \<Rightarrow> ('k, 'v) database \<Rightarrow> bool" where
  "satisfied h db =
     (case map_of (objectStores db) (name h) of
        None \<Rightarrow> False
      | Some s \<Rightarrow>
          (case indexes (options h) of
             None \<Rightarrow> True
           | Some ixs \<Rightarrow> list_all (\<lambda>ix. contains (indexNames s) (fst ix)) ixs))"

text \<open>The requests that only read.\<close>

definition is_read :: "('k, 'v) request \<Rightarrow> bool" where
  "is_read rq = (case rq of Put _ _ \<Rightarrow> False | Delete _ \<Rightarrow> False | Clear \<Rightarrow> False | _ \<Rightarrow> True)"

text \<open>The errors the engine raises, as opposed to the \<open>Error\<close> objects the library throws.\<close>

definition engine_error :: "error \<Rightarrow> bool" where
  "engine_error e = (case e of JsError _ \<Rightarrow> False | _ \<Rightarrow> True)"

text \<open>A call that threw at once, and an \<open>async\<close> call rejected at once: no transaction
  was opened and nothing was dispatched.\<close>

definition threw :: "('k, 'v) database \<Rightarrow> error \<Rightarrow> ('k, 'v, 's) call" where
  "threw db e = \<lparr>opened = [], returned = Inl e, trace = [], states = [], after = db\<rparr>"

definition rejected_at_once :: "('k, 'v) database \<Rightarrow> error \<Rightarrow> ('k, 'v, 'a settlement) call" where
  "rejected_at_once db e =
     \<lparr>opened = [], returned = Inr (Rejected (ErrorValue (Some e))), trace = [], states = [],
      after = db\<rparr>"

text \<open>The engine keeps the records of a store in ascending order of their keys.\<close>

definition ordered :: "('k::linorder, 'v) object_store \<Rightarrow> bool" where
  "ordered s = sorted_wrt (<) (map fst (osRecords s))"

text \<open>The dispatches of a cursor request that is continued over the entries \<open>es\<close> to the
  end, and the steps of the walk that listens to them: every entry is handed to the
  visitor, and the dispatch without a cursor resolves the promise.\<close>

definition shown :: "('k \<times> 'k) \<times> 'v \<Rightarrow> ('k, 'v) result" where
  "shown e = Cursor (fst (fst e)) (snd (fst e)) (snd e)"

definition visits :: "nat \<Rightarrow> (('k \<times> 'k) \<times> 'v) list \<Rightarrow> ('k, 'v) dispatch list" where
  "visits i es = map (\<lambda>e. success i (shown e)) es @ [success i Null, completed]"

fun walk_steps ::
  "nat \<Rightarrow> ('k \<times> 'k \<times> 'v \<Rightarrow> 'acc \<Rightarrow> 'acc) \<Rightarrow> 'acc \<Rightarrow> (('k \<times> 'k) \<times> 'v) list
     \<Rightarrow> (('k, 'v) dispatch \<times> ('acc \<times> unit settlement)) list"
where
  "walk_steps i visit acc [] =
     [(success i Null, (acc, Resolved ())), (completed, (acc, Resolved ()))]"
| "walk_steps i visit acc (e # es) =
     (success i (shown e), (visit (fst (fst e), snd (fst e), snd e) acc, Pending))
     # walk_steps i visit (visit (fst (fst e), snd (fst e), snd e) acc) es"

text \<open>The records a call's cursor was positioned on, in the order of the dispatches: primary
  key and value.\<close>

definition visited :: "('k, 'v, 's) call \<Rightarrow> ('k \<times> 'v) list" where
  "visited c =
     List.map_filter (\<lambda>d. case result d of Cursor k pk v \<Rightarrow> Some (pk, v) | _ \<Rightarrow> None) (trace c)"

text \<open>A queue without cursors, worked off without a failure: the success dispatches in
  the order of the queue, and the records at the end.\<close>

fun served ::
  "(string \<Rightarrow> 'v \<Rightarrow> ('k::linorder) option) \<Rightarrow> (string \<times> string) list
     \<Rightarrow> (nat \<times> ('k, 'v) request \<times> ('k \<times> 'k) option) list \<Rightarrow> ('k \<times> 'v) list
     \<Rightarrow> ('k, 'v) dispatch list"
where
  "served ev ixs [] rs = []"
| "served ev ixs (j # q) rs =
     success (fst j) (fst (perform ev ixs (fst (snd j)) (snd (snd j)) rs))
     # served ev ixs q (fst (snd (perform ev ixs (fst (snd j)) (snd (snd j)) rs)))"

fun applied ::
  "(string \<Rightarrow> 'v \<Rightarrow> ('k::linorder) option) \<Rightarrow> (string \<times> string) list
     \<Rightarrow> (nat \<times> ('k, 'v) request \<times> ('k \<times> 'k) option) list \<Rightarrow> ('k \<times> 'v) list
     \<Rightarrow> ('k \<times> 'v) list"
where
  "applied ev ixs [] rs = rs"
| "applied ev ixs (j # q) rs =
     applied ev ixs q (fst (snd (perform ev ixs (fst (snd j)) (snd (snd j)) rs)))"

text \<open>The jobs of a transaction's requests, as \<open>run\<close> hands them to the event loop.\<close>

definition jobs_of ::
  "('k, 'v) request list \<Rightarrow> (nat \<times> ('k, 'v) request \<times> ('k \<times> 'k) option) list"
where
  "jobs_of rqs = map (\<lambda>(i, rq). (i, rq, None)) (enumerate 0 rqs)"


text \<open>What a lookup of the key \<open>k\<close> in the records gives.\<close>

definition retrieved :: "('k \<times> 'v) list \<Rightarrow> 'k \<Rightarrow> ('k, 'v) result" where
  "retrieved rs k = (case map_of rs k of None \<Rightarrow> Undefined | Some v \<Rightarrow> Value v)"


text \<open>The keys and values of a batch for a store with the key path \<open>kp\<close>, in the order of
  the batch.\<close>

definition written :: "(string \<Rightarrow> 'v \<Rightarrow> 'k option) \<Rightarrow> string \<Rightarrow> 'v list \<Rightarrow> ('k \<times> 'v) list" where
  "written ev kp vs = map (\<lambda>v. (the (ev kp v), v)) vs"


section \<open>Example data\<close>

text \<open>Values that are objects with integer properties, a key path being a property name; a
  database \<open>app\<close> with a store \<open>users\<close> (key path \<open>id\<close>, index \<open>byAge\<close> on \<open>age\<close>) and a
  store \<open>notes\<close> (keys given with each write), and the two registered handles; a database
  \<open>club\<close> with a store \<open>members\<close> whose index \<open>byAge\<close> is unique, and its registered
  handle.\<close>

text \<open>The key paths an engine takes, among the strings of ASCII characters: the empty
  string, and identifiers separated by periods.\<close>

definition letter :: "char \<Rightarrow> bool" where
  "letter c = (c \<in> set ''abcdefghijklmnopqrstuvwxyzABCDEFGHIJKLMNOPQRSTUVWXYZ$_'')"

definition digit :: "char \<Rightarrow> bool" where
  "digit c = (c \<in> set ''0123456789'')"

definition identifier_name :: "string \<Rightarrow> bool" where
  "identifier_name w =
     (case w of [] \<Rightarrow> False | c # cs \<Rightarrow> letter c \<and> list_all (\<lambda>x. letter x \<or> digit x) cs)"

fun fields :: "string \<Rightarrow> string list" where
  "fields [] = [[]]"
| "fields (c # cs) =
     (if c = CHR ''.'' then [] # fields cs
      else (case fields cs of [] \<Rightarrow> [[c]] | w # ws \<Rightarrow> (c # w) # ws))"

definition key_path :: "string \<Rightarrow> bool" where
  "key_path kp = (kp = [] \<or> list_all identifier_name (fields kp))"

definition path_of :: "string \<Rightarrow> (string \<times> int) list \<Rightarrow> int option" where
  "path_of kp v = map_of v kp"

definition ann :: "(string \<times> int) list" where
  "ann = [(''id'', 1), (''age'', 30)]"

definition bob :: "(string \<times> int) list" where
  "bob = [(''id'', 2)]"

definition cyd :: "(string \<times> int) list" where
  "cyd = [(''id'', 3), (''age'', 20)]"

definition dan :: "(string \<times> int) list" where
  "dan = [(''id'', 4)]"

definition eve :: "(string \<times> int) list" where
  "eve = [(''id'', 5), (''age'', 30)]"

definition memo :: "(string \<times> int) list" where
  "memo = [(''n'', 70)]"

definition users_store :: "(int, (string \<times> int) list) object_store" where
  "users_store =
     \<lparr>osKeyPath = Some ''id'', osRecords = [(1, ann), (2, bob), (3, cyd)],
      osIndexes = [(''byAge'', ''age'', \<lparr>unique = False, multiEntry = False\<rparr>)]\<rparr>"

definition notes_store :: "(int, (string \<times> int) list) object_store" where
  "notes_store = \<lparr>osKeyPath = None, osRecords = [(4, [(''n'', 40)])], osIndexes = []\<rparr>"

definition app :: "(int, (string \<times> int) list) database" where
  "app = \<lparr>dbVersion = 1, objectStores = [(''users'', users_store), (''notes'', notes_store)]\<rparr>"

definition fresh_users :: store_handle where
  "fresh_users = IDBStore ''users''
     \<lparr>keyPath = Some ''id'', indexes = Some [(''byAge'', ''age'', None)]\<rparr>"

definition fresh_notes :: store_handle where
  "fresh_notes = IDBStore ''notes'' \<lparr>keyPath = None, indexes = None\<rparr>"

definition users_handle :: store_handle where
  "users_handle = register fresh_users"

definition notes_handle :: store_handle where
  "notes_handle = register fresh_notes"

definition members_store :: "(int, (string \<times> int) list) object_store" where
  "members_store =
     \<lparr>osKeyPath = None, osRecords = [(1, ann)],
      osIndexes = [(''byAge'', ''age'', \<lparr>unique = True, multiEntry = False\<rparr>)]\<rparr>"

definition club :: "(int, (string \<times> int) list) database" where
  "club = \<lparr>dbVersion = 1, objectStores = [(''members'', members_store)]\<rparr>"

definition members_handle :: store_handle where
  "members_handle =
     register (IDBStore ''members''
       \<lparr>keyPath = None,
        indexes = Some [(''byAge'', ''age'', Some \<lparr>unique = True, multiEntry = False\<rparr>)]\<rparr>)"

definition app_handle :: idb_database where
  "app_handle =
     \<lparr>dbName = ''app'', version = 1,
      stores = [(''users'', fresh_users), (''notes'', fresh_notes)]\<rparr>"

definition no_database :: "(int, (string \<times> int) list) database" where
  "no_database = \<lparr>dbVersion = 0, objectStores = []\<rparr>"

definition new_database :: "(int, (string \<times> int) list) database" where
  "new_database =
     \<lparr>dbVersion = 0,
      objectStores =
        [(''users'', \<lparr>osKeyPath = None, osRecords = [],
            osIndexes = [(''byAge'', ''age'', \<lparr>unique = False, multiEntry = False\<rparr>)]\<rparr>),
         (''notes'', \<lparr>osKeyPath = None, osRecords = [], osIndexes = []\<rparr>)]\<rparr>"

section \<open>The schema migrator\<close>

lemma map_of_putStore_same:
  "map_of l n = Some t \<Longrightarrow> map_of (putStore n s l) n = Some s"
  by (induction l) (auto split: if_splits)

lemma map_of_putStore_other:
  "m \<noteq> n \<Longrightarrow> map_of (putStore n s l) m = map_of l m"
  by (induction l) auto

lemma putStore_unchanged:
  "map_of l n = Some s \<Longrightarrow> putStore n s l = l"
  by (induction l) (auto split: if_splits)

lemma map_fst_putStore: "map fst (putStore n s l) = map fst l"
  by (induction l) auto

lemma createIndex_names:
  "createIndex valid s n kp ps = Inr s' \<Longrightarrow> indexNames s' = indexNames s @ [n]"
  by (auto simp: createIndex_def indexNames_def split: if_splits)

lemma createIndexes_step:
  assumes "createIndexes valid (ix # rest) s = Inr s'" and "\<not> contains (indexNames s) (fst ix)"
  shows "\<exists>s1. createIndex valid s (fst ix) (fst (snd ix)) (snd (snd ix)) = Inr s1
            \<and> createIndexes valid rest s1 = Inr s'"
  using assms by (auto split: sum.splits)

lemma createIndexes_valid:
  "list_all (\<lambda>ix. valid (fst (snd ix))) ixs \<Longrightarrow> \<exists>s'. createIndexes valid ixs s = Inr s'"
  by (induction ixs arbitrary: s) (auto simp: createIndex_def)

lemma createIndexes_keeps:
  "createIndexes valid ixs s = Inr s' \<Longrightarrow> contains (indexNames s) n \<Longrightarrow> contains (indexNames s') n"
proof (induction ixs arbitrary: s)
  case Nil
  then show ?case by simp
next
  case (Cons ix rest)
  show ?case
  proof (cases "contains (indexNames s) (fst ix)")
    case True
    with Cons show ?thesis by simp
  next
    case False
    from createIndexes_step [OF Cons.prems(1) False] obtain s1
      where c: "createIndex valid s (fst ix) (fst (snd ix)) (snd (snd ix)) = Inr s1"
        and r: "createIndexes valid rest s1 = Inr s'"
      by blast
    from Cons.prems(2) createIndex_names [OF c] have "contains (indexNames s1) n"
      by (simp add: contains_def)
    with r show ?thesis by (rule Cons.IH)
  qed
qed

lemma createIndexes_declared:
  "createIndexes valid ixs s = Inr s' \<Longrightarrow> list_all (\<lambda>ix. contains (indexNames s') (fst ix)) ixs"
proof (induction ixs arbitrary: s)
  case Nil
  then show ?case by simp
next
  case (Cons ix rest)
  show ?case
  proof (cases "contains (indexNames s) (fst ix)")
    case True
    with Cons.prems have r: "createIndexes valid rest s = Inr s'" by simp
    from createIndexes_keeps [OF r True] Cons.IH [OF r] show ?thesis by simp
  next
    case False
    from createIndexes_step [OF Cons.prems False] obtain s1
      where c: "createIndex valid s (fst ix) (fst (snd ix)) (snd (snd ix)) = Inr s1"
        and r: "createIndexes valid rest s1 = Inr s'"
      by blast
    from createIndex_names [OF c] have "contains (indexNames s1) (fst ix)"
      by (simp add: contains_def)
    from createIndexes_keeps [OF r this] Cons.IH [OF r] show ?thesis by simp
  qed
qed

lemma createIndexes_present:
  "list_all (\<lambda>ix. contains (indexNames s) (fst ix)) ixs \<Longrightarrow> createIndexes valid ixs s = Inr s"
  by (induction ixs) auto
lemma contains_names_map_of:
  "contains (objectStoreNames db) n \<longleftrightarrow> map_of (objectStores db) n \<noteq> None"
  by (simp add: contains_def objectStoreNames_def map_of_eq_None_iff)

lemma upgrade_cases:
  assumes "upgrade valid h db = Inr db1"
  shows "\<exists>s s'. map_of (objectStores db1) (name h) = Some s'
           \<and> (map_of (objectStores db) (name h) = Some s
                \<or> map_of (objectStores db) (name h) = None
                  \<and> s = \<lparr>osKeyPath = None, osRecords = [], osIndexes = []\<rparr>)
           \<and> (case indexes (options h) of
                 None \<Rightarrow> s' = s
               | Some ixs \<Rightarrow> createIndexes valid ixs s = Inr s')
           \<and> (\<forall>m. m \<noteq> name h \<longrightarrow> map_of (objectStores db1) m = map_of (objectStores db) m)
           \<and> dbVersion db1 = dbVersion db"
proof (cases "map_of (objectStores db) (name h)")
  case None
  let ?s = "\<lparr>osKeyPath = None, osRecords = [], osIndexes = []\<rparr> :: ('a, 'b) object_store"
  let ?l = "objectStores db @ [(name h, ?s)]"
  have l: "map_of ?l (name h) = Some ?s" using None by (simp add: map_add_def)
  have o: "\<And>m. m \<noteq> name h \<Longrightarrow> map_of ?l m = map_of (objectStores db) m"
    by (simp add: map_add_def split: option.splits)
  from None have nc: "\<not> contains (objectStoreNames db) (name h)"
    by (simp add: contains_names_map_of)
  show ?thesis
  proof (cases "indexes (options h)")
    case N: None
    with assms nc have "db1 = db\<lparr>objectStores := ?l\<rparr>"
      by (simp add: upgrade_def createObjectStore_def Let_def)
    with None N l o show ?thesis by auto
  next
    case (Some ixs)
    from assms nc Some obtain s' where c: "createIndexes valid ixs ?s = Inr s'"
      by (cases "createIndexes valid ixs ?s")
        (simp_all add: upgrade_def createObjectStore_def Let_def)
    with assms nc Some have "db1 = db\<lparr>objectStores := putStore (name h) s' ?l\<rparr>"
      by (simp add: upgrade_def createObjectStore_def Let_def)
    with None Some c l o show ?thesis
      by (auto simp: map_of_putStore_same map_of_putStore_other)
  qed
next
  case (Some s)
  then have c: "contains (objectStoreNames db) (name h)"
    by (simp add: contains_names_map_of)
  show ?thesis
  proof (cases "indexes (options h)")
    case None
    with assms c Some have "db1 = db" by (simp add: upgrade_def objectStore_def)
    with None Some show ?thesis by auto
  next
    case I: (Some ixs)
    from assms c Some I obtain s' where k: "createIndexes valid ixs s = Inr s'"
      by (cases "createIndexes valid ixs s") (simp_all add: upgrade_def objectStore_def)
    with assms c Some I have "db1 = db\<lparr>objectStores := putStore (name h) s' (objectStores db)\<rparr>"
      by (simp add: upgrade_def objectStore_def)
    with Some I k show ?thesis
      by (auto simp: map_of_putStore_same map_of_putStore_other)
  qed
qed

text \<open>\<open>upgrade\<close> raises no error when every declared index has a valid key path.\<close>

lemma upgrade_valid:
  assumes "case indexes (options h) of
             None \<Rightarrow> True
           | Some ixs \<Rightarrow> list_all (\<lambda>ix. valid (fst (snd ix))) ixs"
  shows "\<exists>db1. upgrade valid h db = Inr db1"
proof (cases "map_of (objectStores db) (name h)")
  case None
  then have nc: "\<not> contains (objectStoreNames db) (name h)"
    by (simp add: contains_names_map_of)
  show ?thesis
  proof (cases "indexes (options h)")
    case N: None
    with nc show ?thesis by (simp add: upgrade_def createObjectStore_def Let_def)
  next
    case (Some ixs)
    with assms have "list_all (\<lambda>ix. valid (fst (snd ix))) ixs" by simp
    then obtain s' where "createIndexes valid ixs
        (\<lparr>osKeyPath = None, osRecords = [], osIndexes = []\<rparr> :: ('a, 'b) object_store) = Inr s'"
      using createIndexes_valid by blast
    with nc Some show ?thesis by (simp add: upgrade_def createObjectStore_def Let_def)
  qed
next
  case (Some s)
  then have c: "contains (objectStoreNames db) (name h)"
    by (simp add: contains_names_map_of)
  show ?thesis
  proof (cases "indexes (options h)")
    case None
    with c Some show ?thesis by (simp add: upgrade_def objectStore_def)
  next
    case I: (Some ixs)
    with assms have "list_all (\<lambda>ix. valid (fst (snd ix))) ixs" by simp
    then obtain s' where "createIndexes valid ixs s = Inr s'"
      using createIndexes_valid by blast
    with c Some I show ?thesis by (simp add: upgrade_def objectStore_def)
  qed
qed

lemma upgrade_noop: "satisfied h db \<Longrightarrow> upgrade valid h db = Inr db"
  by (auto simp: satisfied_def upgrade_def objectStore_def contains_names_map_of
        createIndexes_present putStore_unchanged split: option.splits)

lemma list_all_keeps:
  "createIndexes valid ixs s = Inr s' \<Longrightarrow> list_all (\<lambda>ix. contains (indexNames s) (fst ix)) js
     \<Longrightarrow> list_all (\<lambda>ix. contains (indexNames s') (fst ix)) js"
  by (induction js) (auto dest: createIndexes_keeps)

lemma upgrade_satisfied: "upgrade valid h db = Inr db1 \<Longrightarrow> satisfied h db1"
  by (drule upgrade_cases) (auto simp: satisfied_def createIndexes_declared split: option.splits)

lemma upgrade_keeps_satisfied:
  assumes "satisfied g db" and "upgrade valid h db = Inr db1"
  shows "satisfied g db1"
proof (cases "name g = name h")
  case False
  with upgrade_cases [OF assms(2)] assms(1) show ?thesis
    by (auto simp: satisfied_def)
next
  case True
  from upgrade_cases [OF assms(2)] obtain s s' where
    a: "map_of (objectStores db1) (name h) = Some s'"
    and b: "map_of (objectStores db) (name h) = Some s
                \<or> map_of (objectStores db) (name h) = None
                  \<and> s = \<lparr>osKeyPath = None, osRecords = [], osIndexes = []\<rparr>"
    and c: "(case indexes (options h) of
               None \<Rightarrow> s' = s
             | Some ixs \<Rightarrow> createIndexes valid ixs s = Inr s')"
    by blast
  from assms(1) True b have s: "map_of (objectStores db) (name h) = Some s"
    by (auto simp: satisfied_def split: option.splits)
  show ?thesis
  proof (cases "indexes (options h)")
    case None
    with c have "s' = s" by simp
    with assms(1) True a s show ?thesis by (simp add: satisfied_def)
  next
    case (Some ixs)
    with c have "createIndexes valid ixs s = Inr s'" by simp
    with assms(1) True a s show ?thesis
      by (auto simp: satisfied_def split: option.splits dest: list_all_keeps)
  qed
qed

lemma iterate_upgrade_step:
  assumes "iterate ((k, st) # rest) (\<lambda>_ st. upgrade valid st) db = Inr db1"
  shows "\<exists>db'. upgrade valid st db = Inr db'
            \<and> iterate rest (\<lambda>_ st. upgrade valid st) db' = Inr db1"
  using assms by (auto split: sum.splits)

text \<open>The migrator raises no error when every declared index has a valid key path.\<close>

lemma iterate_upgrade_valid:
  assumes "list_all (\<lambda>p. case indexes (options (snd p)) of
             None \<Rightarrow> True
           | Some ixs \<Rightarrow> list_all (\<lambda>ix. valid (fst (snd ix))) ixs) sts"
  shows "\<exists>db1. iterate sts (\<lambda>_ st. upgrade valid st) db = Inr db1"
  using assms
proof (induction sts arbitrary: db)
  case Nil
  show ?case by simp
next
  case (Cons p rest)
  obtain k st where p: "p = (k, st)" by (cases p)
  from Cons.prems p obtain db' where "upgrade valid st db = Inr db'"
    using upgrade_valid [where h = st and valid = valid and db = db] by auto
  moreover from Cons.prems have "list_all (\<lambda>p. case indexes (options (snd p)) of
             None \<Rightarrow> True
           | Some ixs \<Rightarrow> list_all (\<lambda>ix. valid (fst (snd ix))) ixs) rest"
    by simp
  ultimately show ?case using Cons.IH [of db'] p by simp
qed

lemma iterate_upgrade_keeps:
  "iterate sts (\<lambda>_ st. upgrade valid st) db = Inr db1 \<Longrightarrow> satisfied g db \<Longrightarrow> satisfied g db1"
proof (induction sts arbitrary: db)
  case Nil
  then show ?case by simp
next
  case (Cons p rest)
  obtain k st where p: "p = (k, st)" by (cases p)
  from iterate_upgrade_step [OF Cons.prems(1) [unfolded p]] obtain db'
    where u: "upgrade valid st db = Inr db'"
      and r: "iterate rest (\<lambda>_ st. upgrade valid st) db' = Inr db1"
    by blast
  have "satisfied g db'" using Cons.prems(2) u by (rule upgrade_keeps_satisfied)
  with r show ?case by (rule Cons.IH)
qed

lemma iterate_upgrade_satisfied:
  "iterate sts (\<lambda>_ st. upgrade valid st) db = Inr db1
     \<Longrightarrow> list_all (\<lambda>p. satisfied (snd p) db1) sts"
proof (induction sts arbitrary: db)
  case Nil
  then show ?case by simp
next
  case (Cons p rest)
  obtain k st where p: "p = (k, st)" by (cases p)
  from iterate_upgrade_step [OF Cons.prems(1) [unfolded p]] obtain db'
    where u: "upgrade valid st db = Inr db'"
      and r: "iterate rest (\<lambda>_ st. upgrade valid st) db' = Inr db1"
    by blast
  have "satisfied st db'" using u by (rule upgrade_satisfied)
  with r have "satisfied st db1" by (rule iterate_upgrade_keeps)
  with Cons.IH [OF r] p show ?case by simp
qed

lemma iterate_upgrade_noop:
  "list_all (\<lambda>p. satisfied (snd p) db) sts
     \<Longrightarrow> iterate sts (\<lambda>_ st. upgrade valid st) db = Inr db"
  by (induction sts) (auto simp: upgrade_noop)

text \<open>The engine refuses an index whose key path is not valid, and the migrator raises its
  error: on a new database, and again on every later run.\<close>

lemma upgrade_refuses_key_path:
  "upgrade key_path (IDBStore ''tags'' \<lparr>keyPath = None, indexes = Some [(''ix'', ''a b'', None)]\<rparr>)
       no_database
     = Inl SyntaxError"
  by (simp add: upgrade_def IDBStore_def contains_def objectStoreNames_def createObjectStore_def
      no_database_def createIndex_def indexNames_def key_path_def identifier_name_def letter_def
      digit_def Let_def)

text \<open>
  C6.  When the schema migrator has run on a database without an error, running it a second
  time with the same descriptors, on the database the first run produced, raises no error
  and gives that database back: no store and no index is added, removed or changed.
\<close>

theorem migration_idempotent:
  "onupgradeneeded valid sts db = Inr db1 \<Longrightarrow> onupgradeneeded valid sts db1 = Inr db1"
  unfolding onupgradeneeded_def
  by (rule iterate_upgrade_noop, rule iterate_upgrade_satisfied)

theorem migration_idempotent_witness:
  "onupgradeneeded key_path (stores app_handle) no_database = Inr new_database
   \<and> onupgradeneeded key_path (stores app_handle) new_database = Inr new_database"
proof -
  have a: "onupgradeneeded key_path (stores app_handle) no_database = Inr new_database"
    by (simp add: onupgradeneeded_def app_handle_def no_database_def new_database_def upgrade_def
        fresh_users_def fresh_notes_def IDBStore_def contains_def objectStoreNames_def
        createObjectStore_def createIndex_def indexNames_def key_path_def identifier_name_def
        letter_def digit_def Let_def)
  from migration_idempotent [OF a] a show ?thesis by simp
qed


text \<open>
  C5 (the code against the claim).  For the descriptor of a store \<open>users\<close> with the declared
  key path \<open>id\<close> and a database without that store, \<open>upgrade\<close> creates the store without
  a key path: \<open>createObjectStore\<close> is called with the name alone.
\<close>

theorem upgrade_creates_store_without_key_path:
  "upgrade valid (IDBStore ''users'' \<lparr>keyPath = Some ''id'', indexes = None\<rparr>)
       \<lparr>dbVersion = 0, objectStores = []\<rparr>
     = Inr \<lparr>dbVersion = 0,
            objectStores = [(''users'', \<lparr>osKeyPath = None, osRecords = [], osIndexes = []\<rparr>)]\<rparr>"
  by (simp add: upgrade_def IDBStore_def contains_def objectStoreNames_def createObjectStore_def
      Let_def)

text \<open>For a store that exists already, \<open>upgrade\<close> adds no store.\<close>

lemma upgrade_reuses_store:
  "contains (objectStoreNames db) (name h) \<Longrightarrow> upgrade valid h db = Inr db1
     \<Longrightarrow> objectStoreNames db1 = objectStoreNames db"
  by (auto simp: upgrade_def objectStore_def objectStoreNames_def map_fst_putStore
      split: option.splits sum.splits)

section \<open>The event loop\<close>

declare event_loop.simps [simp del]

lemma event_loop_induct [consumes 0, case_names Commit Step]:
  assumes commit: "\<And>n rs st. P n [] rs st"
    and step: "\<And>n i rq pos q rs st.
      (fault f n = None \<Longrightarrow>
         P (Suc n)
           (requeue (snd (h (success i (fst (perform ev ixs rq pos rs))) st))
              (i, rq, snd (snd (perform ev ixs rq pos rs))) q)
           (fst (snd (perform ev ixs rq pos rs)))
           (fst (h (success i (fst (perform ev ixs rq pos rs))) st)))
      \<Longrightarrow> P n ((i, rq, pos) # q) rs st"
  shows "P n q rs st"
proof -
  have "ev' = ev \<longrightarrow> ixs' = ixs \<longrightarrow> f' = f \<longrightarrow> h' = h \<longrightarrow> P n q rs st" for ev' ixs' f' h'
  proof (induction ev' ixs' f' h' n q rs st rule: event_loop.induct)
    case (1 ev ixs f h n rs st)
    show ?case by (simp add: commit)
  next
    case (2 ev' ixs' f' h' n i rq pos q rs st)
    show ?case
    proof (intro impI)
      assume e: "ev' = ev" "ixs' = ixs" "f' = f" "h' = h"
      show "P n ((i, rq, pos) # q) rs st"
      proof (rule step)
        assume "fault f n = None"
        with 2 [OF _ refl refl] e
        show "P (Suc n)
           (requeue (snd (h (success i (fst (perform ev ixs rq pos rs))) st))
              (i, rq, snd (snd (perform ev ixs rq pos rs))) q)
           (fst (snd (perform ev ixs rq pos rs)))
           (fst (h (success i (fst (perform ev ixs rq pos rs))) st))"
          by simp
      qed
    qed
  qed
  then show ?thesis by simp
qed

lemma dispatch_fields:
  "target (success i res) = Request i" "signal (success i res) = Onsuccess"
  "result (success i res) = res" "error (success i res) = None"
  "target completed = Transaction" "signal completed = Oncomplete"
  "result completed = Undefined" "error completed = None"
  "target (aborted e) = Transaction" "signal (aborted e) = Onabort"
  "result (aborted e) = Undefined" "error (aborted e) = Some e"
  by (simp_all add: success_def completed_def aborted_def)

lemma event_loop_step:
  "fault f n = None \<Longrightarrow>
   event_loop ev ixs f h n ((i, rq, pos) # q) rs st =
     ((success i (fst (perform ev ixs rq pos rs)),
       fst (h (success i (fst (perform ev ixs rq pos rs))) st))
      # fst (event_loop ev ixs f h (Suc n)
           (requeue (snd (h (success i (fst (perform ev ixs rq pos rs))) st))
              (i, rq, snd (snd (perform ev ixs rq pos rs))) q)
           (fst (snd (perform ev ixs rq pos rs)))
           (fst (h (success i (fst (perform ev ixs rq pos rs))) st))),
      snd (event_loop ev ixs f h (Suc n)
           (requeue (snd (h (success i (fst (perform ev ixs rq pos rs))) st))
              (i, rq, snd (snd (perform ev ixs rq pos rs))) q)
           (fst (snd (perform ev ixs rq pos rs)))
           (fst (h (success i (fst (perform ev ixs rq pos rs))) st))))"
  by (simp add: event_loop.simps Let_def)

lemma event_loop_commit:
  "event_loop ev ixs f h n [] rs st =
     (case fault f n of
        Some e \<Rightarrow> ([(aborted e, fst (h (aborted e) st))], None)
      | None \<Rightarrow> ([(completed, fst (h completed st))], Some rs))"
  by (simp add: event_loop.simps Let_def split: option.splits)

lemma event_loop_fails:
  "fault f n = Some e \<Longrightarrow>
   event_loop ev ixs f h n ((i, rq, pos) # q) rs st = (deliver h (abort_dispatches i e q) st, None)"
  by (simp add: event_loop.simps)

lemma deliver_dispatches: "map fst (deliver h ds st) = ds"
  by (induction ds arbitrary: st) (simp_all add: Let_def)

lemma length_deliver: "length (deliver h ds st) = length ds"
  by (induction ds arbitrary: st) (simp_all add: Let_def)

lemma event_loop_transaction_result:
  "x \<in> set (fst (event_loop ev ixs f h n q rs st)) \<Longrightarrow> target (fst x) = Transaction
     \<Longrightarrow> result (fst x) = Undefined"
proof (induction n q rs st rule: event_loop_induct [where ev = ev and ixs = ixs and f = f and h = h])
  case (Commit n rs st)
  then show ?case
    by (auto simp: event_loop_commit dispatch_fields split: option.splits)
next
  case (Step n i rq pos q rs st)
  show ?case
  proof (cases "fault f n")
    case (Some e)
    have "d \<in> set (abort_dispatches i e q) \<Longrightarrow> result d = Undefined" for d
      by (auto simp: abort_dispatches_def dispatch_fields)
    moreover from Step.prems(1) Some have "fst x \<in> set (abort_dispatches i e q)"
      using deliver_dispatches [of h "abort_dispatches i e q" st]
      by (metis event_loop_fails fst_conv image_eqI set_map)
    ultimately show ?thesis by blast
  next
    case None
    with Step show ?thesis by (auto simp: event_loop_step dispatch_fields)
  qed
qed

section \<open>Calls on a registered handle\<close>

lemma store_connected:
  assumes "opener h = Connected" and "map_of (objectStores db) (name h) = Some s"
  shows "store h db m cb =
           (Some (fst (cb s \<lparr>txStore = name h, txMode = m, txRequests = []\<rparr>)),
            snd (cb s \<lparr>txStore = name h, txMode = m, txRequests = []\<rparr>))"
proof -
  from assms(2) have "contains (objectStoreNames db) (name h)"
    by (simp add: contains_names_map_of)
  with assms show ?thesis
    by (simp add: store_def db_transaction_def objectStore_def Let_def)
qed

lemma map_of_store_record: "map_of (store_record k v rs) k = Some v"
  by (induction rs) auto

lemma map_of_store_record_other: "k' \<noteq> k \<Longrightarrow> map_of (store_record k v rs) k' = map_of rs k'"
  by (induction rs) auto

lemma write_back_same:
  "map_of (objectStores db) n = Some s \<Longrightarrow> write_back db n s (Some (osRecords s)) = db"
  by (simp add: write_back_def putStore_unchanged)

lemma map_of_write_back:
  "map_of (objectStores db) n = Some s \<Longrightarrow>
     map_of (objectStores (write_back db n s (Some rs))) n = Some (s\<lparr>osRecords := rs\<rparr>)"
  by (simp add: write_back_def map_of_putStore_same)

lemma get_call:
  assumes "opener h = Connected" and "map_of (objectStores db) (name h) = Some s"
  shows "get ev None h db k =
    \<lparr>opened = [(name h, Readonly)], returned = Inr Pending,
     trace = [success 0 (case map_of (osRecords s) k of None \<Rightarrow> Undefined | Some v \<Rightarrow> Value v),
              completed],
     states = [Resolved (case map_of (osRecords s) k of None \<Rightarrow> Undefined | Some v \<Rightarrow> Value v),
               Resolved (case map_of (osRecords s) k of None \<Rightarrow> Undefined | Some v \<Rightarrow> Value v)],
     after = db\<rparr>"
  using assms
  by (simp add: get_def store_connected run_def returning_def store_get_def place_def
      objectStore_def enumerate_simps fault_def perform_def promisify_def resolve_def
      write_back_def Let_def putStore_unchanged success_def completed_def requeue_def
      event_loop.simps)

lemma set_resolved:
  assumes "opener h = Connected" and "map_of (objectStores db) (name h) = Some s"
    and "outcome (set_op ev f h db v (Some k)) = Inr (Resolved x)"
  shows "after (set_op ev f h db v (Some k)) =
           write_back db (name h) s (Some (store_record k v (osRecords s)))"
  using assms
  by (auto simp add: set_op_def store_connected run_def returning_def store_put_def place_def
      objectStore_def enumerate_simps fault_def perform_def promisify_def resolve_def reject_def
      outcome_def abort_dispatches_def success_def completed_def aborted_def requeue_def Let_def
      event_loop.simps split: option.splits if_splits)

section \<open>Round trip of set and get\<close>

text \<open>
  C3.  On a registered handle whose store exists, with the engine not failing the lookup:
  \<open>get(k)\<close> for a key \<open>k\<close> the store has no record for resolves to \<open>undefined\<close>; and once
  \<open>set(v, k)\<close> has resolved, \<open>get(k)\<close> on the database it left resolves to \<open>v\<close>.
\<close>

theorem get_set_round_trip:
  assumes "opener h = Connected" and "map_of (objectStores db) (name h) = Some s"
  shows "(map_of (osRecords s) k = None \<longrightarrow> outcome (get ev None h db k) = Inr (Resolved Undefined))
       \<and> (\<forall>x. outcome (set_op ev f h db v (Some k)) = Inr (Resolved x) \<longrightarrow>
            outcome (get ev None h (after (set_op ev f h db v (Some k))) k) = Inr (Resolved (Value v)))"
proof (intro conjI impI allI)
  assume "map_of (osRecords s) k = None"
  then show "outcome (get ev None h db k) = Inr (Resolved Undefined)"
    by (simp add: get_call [OF assms] outcome_def)
next
  fix x
  assume r: "outcome (set_op ev f h db v (Some k)) = Inr (Resolved x)"
  let ?db = "after (set_op ev f h db v (Some k))"
  have a: "?db = write_back db (name h) s (Some (store_record k v (osRecords s)))"
    using assms r by (rule set_resolved)
  have m: "map_of (objectStores ?db) (name h) = Some (s\<lparr>osRecords := store_record k v (osRecords s)\<rparr>)"
    unfolding a using assms(2) by (rule map_of_write_back)
  show "outcome (get ev None h ?db k) = Inr (Resolved (Value v))"
    by (simp add: get_call [OF assms(1) m] outcome_def map_of_store_record)
qed

lemma notes_connected: "opener notes_handle = Connected \<and> name notes_handle = ''notes''"
  by (simp add: notes_handle_def fresh_notes_def register_def IDBStore_def)

lemma users_connected: "opener users_handle = Connected \<and> name users_handle = ''users''"
  by (simp add: users_handle_def fresh_users_def register_def IDBStore_def)

lemma stores_of_app:
  "map_of (objectStores app) ''notes'' = Some notes_store"
  "map_of (objectStores app) ''users'' = Some users_store"
  by (simp_all add: app_def)

lemma notes_in_app: "map_of (objectStores app) (name notes_handle) = Some notes_store"
  by (simp add: stores_of_app notes_connected)

lemma users_in_app: "map_of (objectStores app) (name users_handle) = Some users_store"
  by (simp add: stores_of_app users_connected)

theorem get_set_round_trip_witness:
  "opener notes_handle = Connected
   \<and> map_of (objectStores app) (name notes_handle) = Some notes_store
   \<and> map_of (osRecords notes_store) 7 = None
   \<and> outcome (get path_of None notes_handle app 7) = Inr (Resolved Undefined)
   \<and> outcome (set_op path_of None notes_handle app memo (Some 7)) = Inr (Resolved Undefined)
   \<and> outcome (get path_of None notes_handle (after (set_op path_of None notes_handle app memo (Some 7))) 7)
       = Inr (Resolved (Value memo))"
proof -
  have c: "opener notes_handle = Connected" by (simp add: notes_connected)
  have n: "map_of (osRecords notes_store) 7 = None" by (simp add: notes_store_def)
  have s: "outcome (set_op path_of None notes_handle app memo (Some 7)) = Inr (Resolved Undefined)"
    by (simp add: set_op_def store_connected [OF c notes_in_app] run_def returning_def
        store_put_def place_def objectStore_def stores_of_app notes_connected notes_store_def
        enumerate_simps fault_def perform_def promisify_def resolve_def outcome_def Let_def
        success_def completed_def requeue_def event_loop.simps)
  from get_set_round_trip [OF c notes_in_app, of 7 path_of None "memo"] c n s notes_in_app
  show ?thesis by simp
qed

section \<open>The request bridge settles once\<close>

lemma deliver_settled:
  "p \<noteq> Pending \<Longrightarrow> map snd (deliver (listen (promisify request)) ds p) = replicate (length ds) p"
  by (induction ds) (auto simp: promisify_def resolve_def reject_def Let_def
      split: settlement.splits signal.splits)

text \<open>
  The promise of \<open>promisify(request)\<close> starts pending.  A success or complete signal
  at the object it was given resolves it with that object's \<open>result\<close>, an error or abort
  signal rejects it with what that object's \<open>error\<close> is at that moment; signals at other
  objects leave it alone.  Once it is settled, no further signal changes it.  The \<open>result\<close>
  the engine shows at a transaction is always \<open>undefined\<close>.
\<close>

theorem promisify_settles_once:
  "initial (promisify request :: ('k, 'v, ('k, 'v) result settlement) promise) = Pending
   \<and> (target (d :: ('k, 'v) dispatch) = request \<and> (signal d = Onsuccess \<or> signal d = Oncomplete) \<longrightarrow>
        listen (promisify request) d Pending = (Resolved (result d), False))
   \<and> (target d = request \<and> (signal d = Onerror \<or> signal d = Onabort) \<longrightarrow>
        listen (promisify request) d Pending = (Rejected (ErrorValue (error d)), False))
   \<and> (target d \<noteq> request \<longrightarrow> listen (promisify request) d p = (p, False))
   \<and> (p \<noteq> Pending \<longrightarrow>
        map snd (deliver (listen (promisify request)) ds p) = replicate (length ds) p)
   \<and> (\<forall>x \<in> set (fst (event_loop ev ixs f h n q rs st)).
        target (fst x) = Transaction \<longrightarrow> result (fst x) = Undefined)"
  using deliver_settled [of p request ds] event_loop_transaction_result [of _ ev ixs f h n q rs st]
  by (auto simp: promisify_def resolve_def reject_def)

theorem promisify_settles_once_witness:
  "listen (promisify (Request 0)) (success 0 (Value memo) :: (int, (string \<times> int) list) dispatch)
       Pending
       = (Resolved (Value memo), False)
   \<and> listen (promisify Transaction)
         (aborted UnknownError :: (int, (string \<times> int) list) dispatch) Pending
       = (Rejected (ErrorValue (Some UnknownError)), False)
   \<and> listen (promisify (Request 0)) (completed :: (int, (string \<times> int) list) dispatch)
         (Resolved (Value memo))
       = (Resolved (Value memo), False)
   \<and> map snd (deliver (listen (promisify (Request 0)))
                 [success 0 (Value ann) :: (int, (string \<times> int) list) dispatch, completed]
                 (Resolved (Value memo)))
       = [Resolved (Value memo), Resolved (Value memo)]
   \<and> result (fst (last (fst (event_loop path_of [] None (listen (promisify Transaction)) 0 []
                                (osRecords notes_store) Pending)))) = Undefined"
proof -
  let ?a = "Value memo :: (int, (string \<times> int) list) result"
  let ?b = "Value ann :: (int, (string \<times> int) list) result"
  let ?c = "aborted UnknownError :: (int, (string \<times> int) list) dispatch"
  let ?loop = "event_loop path_of [] None (listen (promisify Transaction)) 0 []
      (osRecords notes_store) Pending"
  have e: "?loop = ([(completed, Resolved Undefined)], Some (osRecords notes_store))"
    by (simp add: event_loop_commit fault_def promisify_def resolve_def completed_def)
  from e promisify_settles_once [of "Request 0" "success 0 ?a" "Resolved ?a" "[]" path_of "[]" None
      "listen (promisify Transaction)" 0 "[]" "osRecords notes_store" Pending]
  have 1: "listen (promisify (Request 0)) (success 0 ?a) Pending = (Resolved ?a, False)"
    and 5: "result (fst (last (fst ?loop))) = Undefined"
    by (simp_all add: dispatch_fields)
  from e promisify_settles_once [of Transaction ?c Pending "[]" path_of "[]" None
      "listen (promisify Transaction)" 0 "[]" "osRecords notes_store" Pending]
  have 2: "listen (promisify Transaction) ?c Pending
       = (Rejected (ErrorValue (Some UnknownError)), False)"
    by (simp add: dispatch_fields)
  from e promisify_settles_once [of "Request 0" completed "Resolved ?a"
      "[success 0 ?b, completed]" path_of "[]" None
      "listen (promisify Transaction)" 0 "[]" "osRecords notes_store" Pending]
  have 3: "listen (promisify (Request 0)) completed (Resolved ?a) = (Resolved ?a, False)"
    and 4: "map snd (deliver (listen (promisify (Request 0))) [success 0 ?b, completed] (Resolved ?a))
       = [Resolved ?a, Resolved ?a]"
    by (simp_all add: dispatch_fields)
  from 1 2 3 4 5 show ?thesis by simp
qed

text \<open>On a request, the error signal finds the request's \<open>error\<close> set: the promise of
  \<open>get\<close> is rejected with the error of the failed request.\<close>

lemma promisify_request_rejects_with_error:
  "outcome (get path_of (Some (0, UnknownError)) notes_handle app 7)
     = Inr (Rejected (ErrorValue (Some UnknownError)))"
proof -
  have c: "opener notes_handle = Connected" by (simp add: notes_connected)
  show ?thesis
    by (simp add: get_def store_connected [OF c notes_in_app] run_def returning_def
        store_get_def place_def objectStore_def stores_of_app notes_connected notes_store_def
        enumerate_simps fault_def promisify_def resolve_def reject_def outcome_def Let_def
        abort_dispatches_def aborted_def event_loop.simps)
qed

lemma members_connected:
  "opener members_handle = Connected \<and> name members_handle = ''members''"
  by (simp add: members_handle_def register_def IDBStore_def)

lemma stores_of_club: "map_of (objectStores club) ''members'' = Some members_store"
  by (simp add: club_def)

lemma members_in_club: "map_of (objectStores club) (name members_handle) = Some members_store"
  by (simp add: stores_of_club members_connected)

text \<open>
  C9 (the code against the claim).  The store \<open>members\<close> holds a record of age 30 and its
  index \<open>byAge\<close> is unique; \<open>set(eve, 5)\<close> puts a second record of age 30, and the engine
  fails the put with a \<open>ConstraintError\<close>.  The request gets the error signal, which
  bubbles to the transaction while the transaction's own \<open>error\<close> is still \<open>null\<close>; the
  handler that \<open>promisify\<close> has set on the transaction rejects with what it reads there.
  The promise of \<open>set\<close> is rejected with \<open>null\<close>, not with the \<open>ConstraintError\<close>; the
  abort signal that follows carries the error and finds the promise settled.
\<close>

theorem promisify_transaction_rejects_with_null:
  "trace (set_op path_of (Some (0, ConstraintError)) members_handle club eve (Some 5))
     = [\<lparr>target = Request 0, signal = Onerror, result = Undefined, error = Some ConstraintError\<rparr>,
        \<lparr>target = Transaction, signal = Onerror, result = Undefined, error = None\<rparr>,
        aborted ConstraintError]
   \<and> states (set_op path_of (Some (0, ConstraintError)) members_handle club eve (Some 5))
       = [Pending, Rejected (ErrorValue None), Rejected (ErrorValue None)]
   \<and> outcome (set_op path_of (Some (0, ConstraintError)) members_handle club eve (Some 5))
       = Inr (Rejected (ErrorValue None))
   \<and> after (set_op path_of (Some (0, ConstraintError)) members_handle club eve (Some 5)) = club"
proof -
  have c: "opener members_handle = Connected" by (simp add: members_connected)
  have "set_op path_of (Some (0, ConstraintError)) members_handle club eve (Some 5)
      = \<lparr>opened = [(''members'', Readwrite)], returned = Inr Pending,
         trace = [\<lparr>target = Request 0, signal = Onerror, result = Undefined,
                    error = Some ConstraintError\<rparr>,
                  \<lparr>target = Transaction, signal = Onerror, result = Undefined, error = None\<rparr>,
                  aborted ConstraintError],
         states = [Pending, Rejected (ErrorValue None), Rejected (ErrorValue None)],
         after = club\<rparr>"
    by (simp add: set_op_def store_connected [OF c members_in_club] run_def returning_def
        store_put_def place_def objectStore_def stores_of_club members_connected
        members_store_def enumerate_simps fault_def promisify_def resolve_def reject_def Let_def
        abort_dispatches_def aborted_def write_back_def event_loop.simps)
  then show ?thesis by (simp add: outcome_def)
qed

section \<open>What a call returns, opens and leaves behind\<close>

lemma returned_run: "returned (run ev f db sc) = map_sum id initial (snd sc)"
  by (cases sc) (auto simp: run_def Let_def split: option.splits sum.splits)

lemma opened_run:
  "opened (run ev f db sc) = (case fst sc of None \<Rightarrow> [] | Some tx \<Rightarrow> [(txStore tx, txMode tx)])"
  by (cases sc) (auto simp: run_def Let_def split: option.splits sum.splits)

lemma perform_read: "is_read rq \<Longrightarrow> fst (snd (perform ev ixs rq pos rs)) = rs"
  by (cases rq) (simp_all add: perform_def is_read_def split: option.splits)

lemma requeue_reads:
  "list_all (\<lambda>j. is_read (fst (snd j))) q \<Longrightarrow> is_read rq
     \<Longrightarrow> list_all (\<lambda>j. is_read (fst (snd j))) (requeue c (i, rq, pos) q)"
  by (simp add: requeue_def)

lemma event_loop_reads:
  "list_all (\<lambda>j. is_read (fst (snd j))) q \<Longrightarrow>
     snd (event_loop ev ixs f h n q rs st) = None \<or> snd (event_loop ev ixs f h n q rs st) = Some rs"
proof (induction n q rs st rule: event_loop_induct [where ev = ev and ixs = ixs and f = f and h = h])
  case (Commit n rs st)
  show ?case by (simp add: event_loop_commit split: option.splits)
next
  case (Step n i rq pos q rs st)
  show ?case
  proof (cases "fault f n")
    case (Some e)
    then show ?thesis by (simp add: event_loop_fails)
  next
    case None
    from Step.prems have r: "is_read rq" and q: "list_all (\<lambda>j. is_read (fst (snd j))) q"
      by simp_all
    from Step.IH [OF None requeue_reads [OF q r]] None r show ?thesis
      by (simp add: event_loop_step perform_read)
  qed
qed

lemma after_run_reads:
  assumes "case fst sc of None \<Rightarrow> True | Some tx \<Rightarrow> list_all is_read (txRequests tx)"
  shows "after (run ev f db sc) = db"
proof (cases "fst sc")
  case None
  then show ?thesis by (simp add: run_def)
next
  case (Some tx)
  show ?thesis
  proof (cases "map_of (objectStores db) (txStore tx)")
    case None
    with Some show ?thesis by (simp add: run_def objectStore_def)
  next
    case s: (Some s)
    let ?jobs = "map (\<lambda>(i, rq). (i, rq, None)) (enumerate 0 (txRequests tx))"
    from assms Some have "list_all is_read (txRequests tx)" by simp
    then have j: "list_all (\<lambda>j. is_read (fst (snd j))) ?jobs"
      by (auto simp: list_all_iff enumerate_eq_zip dest: set_zip_rightD)
    have w: "write_back db (txStore tx) s fin = db" if "fin = None \<or> fin = Some (osRecords s)" for fin
      using that s by (auto simp: write_back_def putStore_unchanged)
    show ?thesis
    proof (cases "snd sc")
      case (Inl e)
      with Some s w [OF event_loop_reads [OF j]] show ?thesis
        by (simp add: run_def objectStore_def Let_def)
    next
      case (Inr p)
      with Some s w [OF event_loop_reads [OF j]] show ?thesis
        by (simp add: run_def objectStore_def Let_def)
    qed
  qed
qed

lemma store_script:
  "fst (store h db m cb) = None
   \<or> (\<exists>s. store h db m cb =
            (Some (fst (cb s \<lparr>txStore = name h, txMode = m, txRequests = []\<rparr>)),
             snd (cb s \<lparr>txStore = name h, txMode = m, txRequests = []\<rparr>)))
   \<or> (\<exists>e. store h db m cb = (Some \<lparr>txStore = name h, txMode = m, txRequests = []\<rparr>, Inl e))"
  by (auto simp: store_def db_transaction_def Let_def split: opener.splits sum.splits)

lemma get_each_places:
  "get_each keys tx =
     (tx\<lparr>txRequests := txRequests tx @ map Get keys\<rparr>,
      Inr (map (\<lambda>i. promisify (Request i))
             [length (txRequests tx) ..< length (txRequests tx) + length keys]))"
proof (induction keys arbitrary: tx)
  case Nil
  show ?case by simp
next
  case (Cons key keys)
  have "[length (txRequests tx) ..< length (txRequests tx) + length (key # keys)]
      = length (txRequests tx) # [Suc (length (txRequests tx)) ..< Suc (length (txRequests tx)) + length keys]"
    by (subst upt_conv_Cons) simp_all
  then show ?case by (simp add: Cons store_get_def place_def)
qed

lemma get_each_requests:
  "txRequests (fst (get_each keys tx)) = txRequests tx @ map Get keys
   \<and> txStore (fst (get_each keys tx)) = txStore tx \<and> txMode (fst (get_each keys tx)) = txMode tx"
  by (simp add: get_each_places)

lemma store_reads:
  assumes "\<And>s tx. txRequests tx = [] \<Longrightarrow> list_all is_read (txRequests (fst (cb s tx)))
              \<and> txStore (fst (cb s tx)) = txStore tx \<and> txMode (fst (cb s tx)) = txMode tx"
  shows "after (run ev f db (store h db m cb)) = db
       \<and> (opened (run ev f db (store h db m cb)) = []
            \<or> opened (run ev f db (store h db m cb)) = [(name h, m)])"
proof -
  let ?tx = "\<lparr>txStore = name h, txMode = m, txRequests = []\<rparr> :: ('a, 'b) transaction"
  from store_script [of h db m cb]
  consider "fst (store h db m cb) = None"
    | s where "store h db m cb = (Some (fst (cb s ?tx)), snd (cb s ?tx))"
    | e where "store h db m cb = (Some ?tx, Inl e)"
    by auto
  then show ?thesis
  proof cases
    case 1
    then show ?thesis by (simp add: after_run_reads opened_run)
  next
    case 2
    with assms [of ?tx s] show ?thesis by (simp add: after_run_reads opened_run)
  next
    case 3
    then show ?thesis by (simp add: after_run_reads opened_run)
  qed
qed

lemma storeIndex_reads:
  assumes "\<And>ix tx. txRequests tx = [] \<Longrightarrow> list_all is_read (txRequests (fst (cb ix tx)))
              \<and> txStore (fst (cb ix tx)) = txStore tx \<and> txMode (fst (cb ix tx)) = txMode tx"
  shows "after (run ev f db (storeIndex h db m ix cb)) = db
       \<and> (opened (run ev f db (storeIndex h db m ix cb)) = []
            \<or> opened (run ev f db (storeIndex h db m ix cb)) = [(name h, m)])"
proof (cases "opener h")
  case Uninitialized
  then show ?thesis by (simp add: storeIndex_def after_run_reads opened_run)
next
  case Connected
  have "after (run ev f db (store h db m (\<lambda>s tx. case store_index s ix of
            Inl e \<Rightarrow> (tx, Inl e) | Inr ix \<Rightarrow> cb ix tx))) = db
       \<and> (opened (run ev f db (store h db m (\<lambda>s tx. case store_index s ix of
            Inl e \<Rightarrow> (tx, Inl e) | Inr ix \<Rightarrow> cb ix tx))) = []
            \<or> opened (run ev f db (store h db m (\<lambda>s tx. case store_index s ix of
            Inl e \<Rightarrow> (tx, Inl e) | Inr ix \<Rightarrow> cb ix tx))) = [(name h, m)])"
    by (rule store_reads) (auto simp: assms split: sum.splits)
  with Connected show ?thesis by (simp add: storeIndex_def)
qed

lemma async_return_fields:
  "after (async_return c) = after c" "opened (async_return c) = opened c"
  "trace (async_return c) = trace c"
  by (simp_all add: async_return_def)

lemma cursor_reads:
  "after (cursor ev f h db visit acc r) = db
     \<and> (opened (cursor ev f h db visit acc r) = []
          \<or> opened (cursor ev f h db visit acc r) = [(name h, Readonly)])"
  unfolding cursor_def
  by (rule store_reads) (simp add: Let_def store_openCursor_def place_def is_read_def)

lemma cursorIndex_reads:
  "after (cursorIndex ev f h db ix visit acc r) = db
     \<and> (opened (cursorIndex ev f h db ix visit acc r) = []
          \<or> opened (cursorIndex ev f h db ix visit acc r) = [(name h, Readonly)])"
  unfolding cursorIndex_def
  by (rule storeIndex_reads) (simp add: Let_def index_openCursor_def place_def is_read_def)

section \<open>Reads leave the store as it is\<close>

text \<open>
  C10.  Whatever the handle, the database and the engine's failures: each of \<open>get\<close>,
  \<open>getByIndex\<close>, \<open>getMany\<close>, \<open>cursor\<close>, \<open>cursorIndex\<close>, \<open>getAll\<close> and \<open>getAllByIndex\<close>
  leaves the database exactly as it was, and the transaction it opens, if it gets to open
  one, is on the handle's store in read-only mode.
\<close>

theorem reads_leave_the_store_unchanged:
  "after (get ev f h db k) = db
   \<and> (opened (get ev f h db k) = [] \<or> opened (get ev f h db k) = [(name h, Readonly)])
   \<and> after (getByIndex ev f h db ix k) = db
   \<and> (opened (getByIndex ev f h db ix k) = []
        \<or> opened (getByIndex ev f h db ix k) = [(name h, Readonly)])
   \<and> after (getMany ev f h db ks) = db
   \<and> (opened (getMany ev f h db ks) = [] \<or> opened (getMany ev f h db ks) = [(name h, Readonly)])
   \<and> after (cursor ev f h db visit acc r) = db
   \<and> (opened (cursor ev f h db visit acc r) = []
        \<or> opened (cursor ev f h db visit acc r) = [(name h, Readonly)])
   \<and> after (cursorIndex ev f h db ix visit acc r) = db
   \<and> (opened (cursorIndex ev f h db ix visit acc r) = []
        \<or> opened (cursorIndex ev f h db ix visit acc r) = [(name h, Readonly)])
   \<and> after (getAll ev f h db r) = db
   \<and> (opened (getAll ev f h db r) = [] \<or> opened (getAll ev f h db r) = [(name h, Readonly)])
   \<and> after (getAllByIndex ev f h db ix r) = db
   \<and> (opened (getAllByIndex ev f h db ix r) = []
        \<or> opened (getAllByIndex ev f h db ix r) = [(name h, Readonly)])"
proof -
  have g: "after (get ev f h db k) = db
     \<and> (opened (get ev f h db k) = [] \<or> opened (get ev f h db k) = [(name h, Readonly)])"
    unfolding get_def
    by (rule store_reads) (simp add: returning_def store_get_def place_def is_read_def)
  have gi: "after (getByIndex ev f h db ix k) = db
     \<and> (opened (getByIndex ev f h db ix k) = []
          \<or> opened (getByIndex ev f h db ix k) = [(name h, Readonly)])"
    unfolding getByIndex_def
    by (rule storeIndex_reads) (simp add: returning_def index_get_def place_def is_read_def)
  have gm: "after (getMany ev f h db ks) = db
     \<and> (opened (getMany ev f h db ks) = [] \<or> opened (getMany ev f h db ks) = [(name h, Readonly)])"
    unfolding getMany_def
    by (rule store_reads) (simp add: returning_def get_each_requests list_all_iff is_read_def)
  from g gi gm cursor_reads [of ev f h db visit acc r] cursorIndex_reads [of ev f h db ix visit acc r]
    cursor_reads [of ev f h db "\<lambda>c items. items @ [snd (snd c)]" "[]" r]
    cursorIndex_reads [of ev f h db ix "\<lambda>c items. items @ [snd (snd c)]" "[]" r]
  show ?thesis
    by (simp add: getAll_def getAllByIndex_def async_return_fields)
qed

theorem reads_leave_the_store_unchanged_witness:
  "after (get path_of (Some (0, UnknownError)) users_handle app 1) = app
   \<and> after (getByIndex path_of None users_handle app ''byAge'' 1) = app
   \<and> after (getMany path_of None users_handle app [3, 9, 1]) = app
   \<and> after (cursor path_of None users_handle app (\<lambda>c n. n + fst c) 0 None) = app
   \<and> after (cursorIndex path_of None users_handle app ''byAge'' (\<lambda>c n. n + fst c) 0 None) = app
   \<and> after (getAll path_of None users_handle app None) = app
   \<and> after (getAllByIndex path_of None users_handle app ''byAge'' None) = app"
  using reads_leave_the_store_unchanged [of path_of "Some (0, UnknownError)" users_handle app 1
      "''byAge''" "[3, 9, 1]" "\<lambda>c n. n + fst c" 0 None]
    reads_leave_the_store_unchanged [of path_of None users_handle app 1
      "''byAge''" "[3, 9, 1]" "\<lambda>c n. n + fst c" 0 None]
  by simp

section \<open>Calls before and after registration\<close>

lemma store_uninitialized:
  "opener h = Uninitialized \<Longrightarrow>
     store h db m cb = (None, Inl (JsError (''IDBStore '' @ name h @ '' is not initialized'')))"
  by (simp add: store_def)

lemma storeIndex_uninitialized:
  "opener h = Uninitialized \<Longrightarrow>
     storeIndex h db m ix cb
       = (None, Inl (JsError (''IDBStoreIndex '' @ name h @ '' is not initialized'')))"
  by (simp add: storeIndex_def)

lemma run_threw:
  "run ev f db (None, Inl e) = \<lparr>opened = [], returned = Inl e, trace = [], states = [], after = db\<rparr>"
  by (simp add: run_def)

lemma async_return_threw:
  "async_return \<lparr>opened = [], returned = Inl e, trace = [], states = [], after = db\<rparr>
     = \<lparr>opened = [], returned = Inr (Rejected (ErrorValue (Some e))), trace = [], states = [],
        after = db\<rparr>"
  by (simp add: async_return_def)

lemma store_connected_errors:
  assumes "opener h = Connected"
    and "\<And>s tx e. snd (cb s tx) = Inl e \<Longrightarrow> engine_error e"
    and "snd (store h db m cb) = Inl e"
  shows "engine_error e"
  using assms
  by (auto simp: store_def db_transaction_def objectStore_def Let_def engine_error_def
      split: sum.splits option.splits if_splits)

lemma storeIndex_connected_errors:
  assumes "opener h = Connected"
    and "\<And>ix tx e. snd (cb ix tx) = Inl e \<Longrightarrow> engine_error e"
    and "snd (storeIndex h db m ix cb) = Inl e"
  shows "engine_error e"
proof -
  from assms(1,3) have "snd (store h db m (\<lambda>s tx. case store_index s ix of
            Inl e \<Rightarrow> (tx, Inl e) | Inr ix \<Rightarrow> cb ix tx)) = Inl e"
    by (simp add: storeIndex_def)
  then show ?thesis
  proof (rule store_connected_errors [OF assms(1), rotated])
    fix s tx e'
    assume "snd (case store_index s ix of Inl e \<Rightarrow> (tx, Inl e) | Inr ix \<Rightarrow> cb ix tx) = Inl e'"
    then show "engine_error e'"
      using assms(2)
      by (auto simp: store_index_def engine_error_def split: sum.splits if_splits)
  qed
qed

lemma put_errors: "snd (store_put ev s v key tx) = Inl e \<Longrightarrow> engine_error e"
  by (auto simp: store_put_def place_def engine_error_def split: if_splits option.splits)

lemma put_errors_pair: "store_put ev s v key tx = (tx1, Inl e) \<Longrightarrow> engine_error e"
  using put_errors [of ev s v key tx e] by simp

lemma put_each_errors: "snd (put_each ev s vs tx) = Inl e \<Longrightarrow> engine_error e"
  by (induction vs arbitrary: tx) (auto dest: put_errors_pair split: prod.splits sum.splits)

lemma connected_returns:
  assumes "opener h = Connected"
  shows "returned (get ev f h db k) \<noteq> Inl (JsError m)"
    and "returned (getByIndex ev f h db ix k) \<noteq> Inl (JsError m)"
    and "returned (set_op ev f h db v key) \<noteq> Inl (JsError m)"
    and "returned (getMany ev f h db ks) \<noteq> Inl (JsError m)"
    and "returned (setMany ev f h db vs) \<noteq> Inl (JsError m)"
    and "returned (update ev f h db v) \<noteq> Inl (JsError m)"
    and "returned (del ev f h db k) \<noteq> Inl (JsError m)"
    and "returned (clear ev f h db) \<noteq> Inl (JsError m)"
    and "returned (cursor ev f h db visit acc r) \<noteq> Inl (JsError m)"
    and "returned (cursorIndex ev f h db ix visit acc r) \<noteq> Inl (JsError m)"
proof -
  have no: "\<not> engine_error (JsError m)" by (simp add: engine_error_def)
  have lift: "x \<noteq> Inl (JsError m)" if "\<And>e. x = Inl e \<Longrightarrow> engine_error e" for x :: "error + 'z"
    using that no by blast
  have m: "map_sum id g y = Inl e \<longleftrightarrow> y = Inl e" for g :: "'y \<Rightarrow> 'z" and y e
    by (cases y) simp_all
  show "returned (get ev f h db k) \<noteq> Inl (JsError m)"
    by (rule lift, unfold get_def returned_run m, erule store_connected_errors [OF assms, rotated])
      (simp add: returning_def store_get_def place_def m)
  show "returned (getByIndex ev f h db ix k) \<noteq> Inl (JsError m)"
    by (rule lift, unfold getByIndex_def returned_run m,
        erule storeIndex_connected_errors [OF assms, rotated])
      (simp add: returning_def index_get_def place_def m)
  show "returned (set_op ev f h db v key) \<noteq> Inl (JsError m)"
    by (rule lift, unfold set_op_def returned_run m, erule store_connected_errors [OF assms, rotated])
      (simp add: returning_def m put_errors)
  show "returned (getMany ev f h db ks) \<noteq> Inl (JsError m)"
    by (rule lift, unfold getMany_def returned_run m, erule store_connected_errors [OF assms, rotated])
      (simp add: returning_def get_each_places m)
  show "returned (setMany ev f h db vs) \<noteq> Inl (JsError m)"
    by (rule lift, unfold setMany_def returned_run m, erule store_connected_errors [OF assms, rotated])
      (simp add: returning_def m put_each_errors)
  show "returned (update ev f h db v) \<noteq> Inl (JsError m)"
    by (rule lift, unfold update_def returned_run m, erule store_connected_errors [OF assms, rotated])
      (simp add: returning_def m put_errors)
  show "returned (del ev f h db k) \<noteq> Inl (JsError m)"
    by (rule lift, unfold del_def returned_run m, erule store_connected_errors [OF assms, rotated])
      (simp add: returning_def m store_delete_def place_def engine_error_def split: if_splits)
  show "returned (clear ev f h db) \<noteq> Inl (JsError m)"
    by (rule lift, unfold clear_def returned_run m, erule store_connected_errors [OF assms, rotated])
      (simp add: returning_def m store_clear_def place_def engine_error_def split: if_splits)
  show "returned (cursor ev f h db visit acc r) \<noteq> Inl (JsError m)"
    by (rule lift, unfold cursor_def returned_run m, erule store_connected_errors [OF assms, rotated])
      (simp add: Let_def)
  show "returned (cursorIndex ev f h db ix visit acc r) \<noteq> Inl (JsError m)"
    by (rule lift, unfold cursorIndex_def returned_run m,
        erule storeIndex_connected_errors [OF assms, rotated])
      (simp add: Let_def)
qed

lemma register_all:
  "iterate sts (\<lambda>key st acc. Inr (acc @ [(key, register st)])) acc
     = Inr (acc @ map (\<lambda>p. (fst p, register (snd p))) sts)"
  by (induction sts arbitrary: acc) auto

lemma init_cases:
  "(fst (init valid d fail db) = Resolved ()
      \<and> stores (fst (snd (init valid d fail db))) = map (\<lambda>p. (fst p, register (snd p))) (stores d))
   \<or> ((\<exists>r. fst (init valid d fail db) = Rejected r) \<and> fst (snd (init valid d fail db)) = d)"
  by (auto simp: init_def register_all split: option.splits sum.splits)

text \<open>
  C4.  A handle fresh from its constructor is not registered, and \<open>init\<close> registers the
  handles only when the open has succeeded: if \<open>init\<close> is rejected, the handles are as
  they were.  On a handle that is not registered every operation fails at once, before any
  transaction is opened, with an \<open>Error\<close> whose message is \<open>IDBStore <name> is not
  initialized\<close> (\<open>IDBStoreIndex <name> is not initialized\<close> for the operations on an
  index); the \<open>async\<close> operations \<open>getAll\<close> and \<open>getAllByIndex\<close> fail by rejecting their
  promise with it.  On a registered handle no operation throws or is rejected at its return
  with an \<open>Error\<close> of the library.
\<close>

theorem not_initialized_until_registered:
  "opener (IDBStore n opts) = Uninitialized
   \<and> opener (register h) = Connected
   \<and> ((fst (init valid d fail db) = Resolved ()
          \<and> stores (fst (snd (init valid d fail db))) = map (\<lambda>p. (fst p, register (snd p))) (stores d))
        \<or> ((\<exists>r. fst (init valid d fail db) = Rejected r) \<and> fst (snd (init valid d fail db)) = d))
   \<and> (opener h = Uninitialized \<longrightarrow>
        get ev f h db k = threw db (JsError (''IDBStore '' @ name h @ '' is not initialized''))
      \<and> getByIndex ev f h db ix k
          = threw db (JsError (''IDBStoreIndex '' @ name h @ '' is not initialized''))
      \<and> set_op ev f h db v key
          = threw db (JsError (''IDBStore '' @ name h @ '' is not initialized''))
      \<and> getMany ev f h db ks
          = threw db (JsError (''IDBStore '' @ name h @ '' is not initialized''))
      \<and> setMany ev f h db vs
          = threw db (JsError (''IDBStore '' @ name h @ '' is not initialized''))
      \<and> update ev f h db v
          = threw db (JsError (''IDBStore '' @ name h @ '' is not initialized''))
      \<and> del ev f h db k = threw db (JsError (''IDBStore '' @ name h @ '' is not initialized''))
      \<and> clear ev f h db = threw db (JsError (''IDBStore '' @ name h @ '' is not initialized''))
      \<and> cursor ev f h db visit acc r
          = threw db (JsError (''IDBStore '' @ name h @ '' is not initialized''))
      \<and> cursorIndex ev f h db ix visit acc r
          = threw db (JsError (''IDBStoreIndex '' @ name h @ '' is not initialized''))
      \<and> getAll ev f h db r
          = rejected_at_once db (JsError (''IDBStore '' @ name h @ '' is not initialized''))
      \<and> getAllByIndex ev f h db ix r
          = rejected_at_once db (JsError (''IDBStoreIndex '' @ name h @ '' is not initialized'')))
   \<and> (opener h = Connected \<longrightarrow>
        returned (get ev f h db k) \<noteq> Inl (JsError m)
      \<and> returned (getByIndex ev f h db ix k) \<noteq> Inl (JsError m)
      \<and> returned (set_op ev f h db v key) \<noteq> Inl (JsError m)
      \<and> returned (getMany ev f h db ks) \<noteq> Inl (JsError m)
      \<and> returned (setMany ev f h db vs) \<noteq> Inl (JsError m)
      \<and> returned (update ev f h db v) \<noteq> Inl (JsError m)
      \<and> returned (del ev f h db k) \<noteq> Inl (JsError m)
      \<and> returned (clear ev f h db) \<noteq> Inl (JsError m)
      \<and> returned (cursor ev f h db visit acc r) \<noteq> Inl (JsError m)
      \<and> returned (cursorIndex ev f h db ix visit acc r) \<noteq> Inl (JsError m)
      \<and> returned (getAll ev f h db r) \<noteq> Inr (Rejected (ErrorValue (Some (JsError m))))
      \<and> returned (getAllByIndex ev f h db ix r) \<noteq> Inr (Rejected (ErrorValue (Some (JsError m)))))"
proof (intro conjI impI)
  show "opener (IDBStore n opts) = Uninitialized" by (simp add: IDBStore_def)
  show "opener (register h) = Connected" by (simp add: register_def)
  show "(fst (init valid d fail db) = Resolved ()
          \<and> stores (fst (snd (init valid d fail db))) = map (\<lambda>p. (fst p, register (snd p))) (stores d))
        \<or> ((\<exists>r. fst (init valid d fail db) = Rejected r) \<and> fst (snd (init valid d fail db)) = d)"
    by (rule init_cases)
next
  assume u: "opener h = Uninitialized"
  note un = store_uninitialized [OF u] storeIndex_uninitialized [OF u] run_threw threw_def
  show "get ev f h db k = threw db (JsError (''IDBStore '' @ name h @ '' is not initialized''))"
    by (simp add: get_def un)
  show "getByIndex ev f h db ix k
          = threw db (JsError (''IDBStoreIndex '' @ name h @ '' is not initialized''))"
    by (simp add: getByIndex_def un)
  show "set_op ev f h db v key
          = threw db (JsError (''IDBStore '' @ name h @ '' is not initialized''))"
    by (simp add: set_op_def un)
  show "getMany ev f h db ks
          = threw db (JsError (''IDBStore '' @ name h @ '' is not initialized''))"
    by (simp add: getMany_def un)
  show "setMany ev f h db vs
          = threw db (JsError (''IDBStore '' @ name h @ '' is not initialized''))"
    by (simp add: setMany_def un)
  show "update ev f h db v
          = threw db (JsError (''IDBStore '' @ name h @ '' is not initialized''))"
    by (simp add: update_def un)
  show "del ev f h db k = threw db (JsError (''IDBStore '' @ name h @ '' is not initialized''))"
    by (simp add: del_def un)
  show "clear ev f h db = threw db (JsError (''IDBStore '' @ name h @ '' is not initialized''))"
    by (simp add: clear_def un)
  show "cursor ev f h db visit acc r
          = threw db (JsError (''IDBStore '' @ name h @ '' is not initialized''))"
    by (simp add: cursor_def un)
  show "cursorIndex ev f h db ix visit acc r
          = threw db (JsError (''IDBStoreIndex '' @ name h @ '' is not initialized''))"
    by (simp add: cursorIndex_def un)
  show "getAll ev f h db r
          = rejected_at_once db (JsError (''IDBStore '' @ name h @ '' is not initialized''))"
    by (simp add: getAll_def cursor_def un async_return_threw rejected_at_once_def)
  show "getAllByIndex ev f h db ix r
          = rejected_at_once db (JsError (''IDBStoreIndex '' @ name h @ '' is not initialized''))"
    by (simp add: getAllByIndex_def cursorIndex_def un async_return_threw rejected_at_once_def)
next
  assume c: "opener h = Connected"
  show "returned (get ev f h db k) \<noteq> Inl (JsError m)"
    and "returned (getByIndex ev f h db ix k) \<noteq> Inl (JsError m)"
    and "returned (set_op ev f h db v key) \<noteq> Inl (JsError m)"
    and "returned (getMany ev f h db ks) \<noteq> Inl (JsError m)"
    and "returned (setMany ev f h db vs) \<noteq> Inl (JsError m)"
    and "returned (update ev f h db v) \<noteq> Inl (JsError m)"
    and "returned (del ev f h db k) \<noteq> Inl (JsError m)"
    and "returned (clear ev f h db) \<noteq> Inl (JsError m)"
    and "returned (cursor ev f h db visit acc r) \<noteq> Inl (JsError m)"
    and "returned (cursorIndex ev f h db ix visit acc r) \<noteq> Inl (JsError m)"
    by (rule connected_returns [OF c])+
  from connected_returns(9) [OF c, of ev f db "\<lambda>c items. items @ [snd (snd c)]" "[]" r m]
  show "returned (getAll ev f h db r) \<noteq> Inr (Rejected (ErrorValue (Some (JsError m))))"
    by (cases "returned (cursor ev f h db (\<lambda>c items. items @ [snd (snd c)]) [] r)")
      (auto simp: getAll_def async_return_def awaited_def cursor_def returned_run store_def
        db_transaction_def objectStore_def Let_def walk_def store_openCursor_def place_def c
        split: sum.splits option.splits if_splits settlement.splits)
  from connected_returns(10) [OF c, of ev f db ix "\<lambda>c items. items @ [snd (snd c)]" "[]" r m]
  show "returned (getAllByIndex ev f h db ix r) \<noteq> Inr (Rejected (ErrorValue (Some (JsError m))))"
    by (cases "returned (cursorIndex ev f h db ix (\<lambda>c items. items @ [snd (snd c)]) [] r)")
      (auto simp: getAllByIndex_def async_return_def awaited_def cursorIndex_def returned_run
        storeIndex_def store_def store_index_def
        db_transaction_def objectStore_def Let_def walk_def index_openCursor_def place_def c
        split: sum.splits option.splits if_splits settlement.splits)
qed

theorem not_initialized_until_registered_witness:
  "opener fresh_users = Uninitialized
   \<and> opener users_handle = Connected
   \<and> fst (init key_path app_handle None no_database) = Resolved ()
   \<and> stores (fst (snd (init key_path app_handle None no_database)))
       = [(''users'', users_handle), (''notes'', notes_handle)]
   \<and> get path_of None fresh_users app 1 = threw app (JsError ''IDBStore users is not initialized'')
   \<and> getByIndex path_of None fresh_users app ''byAge'' 1
       = threw app (JsError ''IDBStoreIndex users is not initialized'')
   \<and> setMany path_of None fresh_users app [ann]
       = threw app (JsError ''IDBStore users is not initialized'')
   \<and> getAll path_of None fresh_users app None
       = rejected_at_once app (JsError ''IDBStore users is not initialized'')
   \<and> returned (get path_of None users_handle app 1)
       \<noteq> Inl (JsError ''IDBStore users is not initialized'')
   \<and> returned (getAll path_of None users_handle app None)
       \<noteq> Inr (Rejected (ErrorValue (Some (JsError ''IDBStore users is not initialized''))))"
proof -
  have u: "opener fresh_users = Uninitialized" and n: "name fresh_users = ''users''"
    by (simp_all add: fresh_users_def IDBStore_def)
  have c: "opener users_handle = Connected" by (simp add: users_connected)
  have i: "fst (init key_path app_handle None no_database) \<noteq> Rejected r" for r
    by (simp add: init_def app_handle_def no_database_def onupgradeneeded_def upgrade_def
        fresh_users_def fresh_notes_def IDBStore_def contains_def objectStoreNames_def
        createObjectStore_def createIndex_def indexNames_def key_path_def identifier_name_def
        letter_def digit_def Let_def register_all)
  have s: "map (\<lambda>p. (fst p, register (snd p))) (stores app_handle)
      = [(''users'', users_handle), (''notes'', notes_handle)]"
    by (simp add: app_handle_def users_handle_def notes_handle_def)
  from i s
    not_initialized_until_registered [of "''users''" "options fresh_users" fresh_users key_path
      app_handle None no_database path_of None 1 "''byAge''" ann None "[]" "[ann]" "\<lambda>c n. n + fst c" 0 None
      "''IDBStore users is not initialized''"]
  have 0: "fst (init key_path app_handle None no_database) = Resolved ()
   \<and> stores (fst (snd (init key_path app_handle None no_database)))
       = [(''users'', users_handle), (''notes'', notes_handle)]"
    by simp
  from u n
    not_initialized_until_registered [of "''users''" "options fresh_users" fresh_users key_path
      app_handle None app path_of None 1 "''byAge''" ann None "[]" "[ann]" "\<lambda>c n. n + fst c" 0 None
      "''IDBStore users is not initialized''"]
  have 1: "get path_of None fresh_users app 1 = threw app (JsError ''IDBStore users is not initialized'')
   \<and> getByIndex path_of None fresh_users app ''byAge'' 1
       = threw app (JsError ''IDBStoreIndex users is not initialized'')
   \<and> setMany path_of None fresh_users app [ann]
       = threw app (JsError ''IDBStore users is not initialized'')
   \<and> getAll path_of None fresh_users app None
       = rejected_at_once app (JsError ''IDBStore users is not initialized'')"
    by simp
  from c
    not_initialized_until_registered [of "''users''" "options fresh_users" users_handle key_path
      app_handle None app path_of None 1 "''byAge''" ann None "[]" "[ann]" "\<lambda>c n. n + fst c" 0 None
      "''IDBStore users is not initialized''"]
  have 2: "returned (get path_of None users_handle app 1)
       \<noteq> Inl (JsError ''IDBStore users is not initialized'')
   \<and> returned (getAll path_of None users_handle app None)
       \<noteq> Inr (Rejected (ErrorValue (Some (JsError ''IDBStore users is not initialized''))))"
    by simp
  from u c 0 1 2 show ?thesis by simp
qed

section \<open>Cursor walks\<close>

lemma find_filter: "find P xs = (case filter P xs of [] \<Rightarrow> None | x # _ \<Rightarrow> Some x)"
  by (induction xs) auto

lemma filter_ahead_next:
  assumes "sorted_wrt (<) (map fst es)" and "filter (ahead r pos) es = c # cs"
  shows "filter (ahead r (Some (fst c))) es = cs"
  using assms
proof (induction es)
  case Nil
  then show ?case by simp
next
  case (Cons e es)
  from Cons.prems(1) have later: "\<And>y. y \<in> set es \<Longrightarrow> fst e < fst y" and srt: "sorted_wrt (<) (map fst es)"
    by auto
  show ?case
  proof (cases "ahead r pos e")
    case True
    with Cons.prems(2) have c: "c = e" and cs: "cs = filter (ahead r pos) es" by auto
    have "ahead r (Some (fst e)) y = ahead r pos y" if "y \<in> set es" for y
      using later [OF that] True by (auto simp: ahead_def split: option.splits)
    then have "filter (ahead r (Some (fst e))) es = filter (ahead r pos) es"
      by (auto intro: filter_cong)
    moreover have "\<not> ahead r (Some (fst e)) e" by (simp add: ahead_def)
    ultimately show ?thesis using c cs by simp
  next
    case False
    with Cons.prems(2) have f: "filter (ahead r pos) es = c # cs" by simp
    then have "c \<in> set (filter (ahead r pos) es)" by simp
    then have "c \<in> set es" by simp
    from later [OF this] have "\<not> ahead r (Some (fst c)) e" by (auto simp: ahead_def)
    with Cons.IH [OF srt f] show ?thesis by simp
  qed
qed

lemma perform_cursor:
  assumes "is_cursor rq"
  shows "perform ev ixs rq pos rs =
     (case filter (ahead (cursor_range rq) pos) (source_entries ev ixs rq rs) of
        [] \<Rightarrow> (Null, rs, None)
      | e # _ \<Rightarrow> (shown e, rs, Some (fst e)))"
  using assms
  by (cases rq) (simp_all add: perform_def is_cursor_def iterate_cursor_def find_filter shown_def
      split: list.splits)

lemma walk_listen:
  "listen (walk visit a0 (Inr (Request i))) (success i Null) (acc, Pending)
     = ((acc, Resolved ()), False)"
  "listen (walk visit a0 (Inr (Request i))) (success i (shown e)) (acc, Pending)
     = ((visit (fst (fst e), snd (fst e), snd e) acc, Pending), True)"
  "listen (walk visit a0 (Inr (Request i))) completed st = (st, False)"
  by (simp_all add: walk_def dispatch_fields shown_def resolve_def)

lemma walk_loop:
  assumes "is_cursor rq" and "sorted_wrt (<) (map fst (source_entries ev ixs rq rs))"
    and "filter (ahead (cursor_range rq) pos) (source_entries ev ixs rq rs) = cs"
  shows "event_loop ev ixs None (listen (walk visit a0 (Inr (Request i)))) n [(i, rq, pos)] rs
           (acc, Pending)
         = (walk_steps i visit acc cs, Some rs)"
  using assms(3)
proof (induction cs arbitrary: pos acc n)
  case Nil
  then show ?case
    by (simp add: event_loop_step event_loop_commit fault_def perform_cursor [OF assms(1)]
        walk_listen requeue_def)
next
  case (Cons e cs)
  have nxt: "filter (ahead (cursor_range rq) (Some (fst e))) (source_entries ev ixs rq rs) = cs"
    using assms(2) Cons.prems by (rule filter_ahead_next)
  from Cons.prems Cons.IH [OF nxt] show ?case
    by (simp add: event_loop_step fault_def perform_cursor [OF assms(1)] walk_listen requeue_def)
qed

lemma walk_steps_trace: "map fst (walk_steps i visit acc es) = visits i es"
  by (induction es arbitrary: acc) (simp_all add: visits_def)

lemma walk_steps_last:
  "last ((acc, Pending) # map snd (walk_steps i visit acc es))
     = (foldl (\<lambda>a e. visit (fst (fst e), snd (fst e), snd e) a) acc es, Resolved ())"
  by (induction es arbitrary: acc) simp_all

lemma walk_steps_settling:
  "find (\<lambda>x. snd (snd x) \<noteq> Pending) (walk_steps i visit acc es)
     = Some (success i Null, (foldl (\<lambda>a e. visit (fst (fst e), snd (fst e), snd e) a) acc es, Resolved ()))"
  by (induction es arbitrary: acc) simp_all

lemma zip_fst_snd: "zip (map fst xs) (map snd xs) = xs"
  by (induction xs) auto

lemma visited_visits:
  "List.map_filter (\<lambda>d. case result d of Cursor k pk v \<Rightarrow> Some (pk, v) | _ \<Rightarrow> None) (visits i es)
     = map (\<lambda>e. (snd (fst e), snd e)) es"
  by (induction es)
    (simp_all add: visits_def map_filter_simps dispatch_fields shown_def)

text \<open>A walk over a request that was placed first on a transaction of a registered
  handle.\<close>

lemma run_walk:
  assumes "map_of (objectStores db) n = Some s" and "is_cursor rq"
    and "sorted_wrt (<) (map fst (source_entries ev (index_paths s) rq (osRecords s)))"
    and "es = filter (ahead (cursor_range rq) None) (source_entries ev (index_paths s) rq (osRecords s))"
  shows "run ev None db (Some \<lparr>txStore = n, txMode = m, txRequests = [rq]\<rparr>,
            Inr (walk visit acc (Inr (Request 0))))
     = \<lparr>opened = [(n, m)], returned = Inr (acc, Pending),
        trace = visits 0 es, states = map snd (walk_steps 0 visit acc es), after = db\<rparr>"
proof -
  have "initial (walk visit acc (Inr (Request 0))) = (acc, Pending)" by (simp add: walk_def)
  with assms(1) walk_loop [OF assms(2,3) assms(4) [symmetric], of visit acc 0 0 acc]
  show ?thesis
    by (simp add: run_def objectStore_def enumerate_simps Let_def walk_steps_trace write_back_same)
qed

subsection \<open>The entries of a store and of an index\<close>

lemma store_entries_sorted:
  "sorted_wrt (<) (map fst rs) \<Longrightarrow> sorted_wrt (<) (map fst (store_entries rs))"
  by (induction rs) (auto simp: store_entries_def)

lemma store_entries_ahead:
  "filter (ahead r None) (store_entries rs) = store_entries (filter (\<lambda>p. in_range r (fst p)) rs)"
  by (induction rs) (auto simp: store_entries_def ahead_def)

lemma distinct_insort_key:
  "distinct (map f (insort_key f x xs)) \<longleftrightarrow> f x \<notin> f ` set xs \<and> distinct (map f xs)"
  by (induction xs) (auto simp: set_insort_key)

lemma distinct_sort_key: "distinct (map f (sort_key f xs)) \<longleftrightarrow> distinct (map f xs)"
  by (induction xs) (auto simp: distinct_insort_key)

lemma in_set_map_filter:
  "y \<in> set (List.map_filter g xs) \<longleftrightarrow> (\<exists>x \<in> set xs. g x = Some y)"
  by (induction xs) (auto split: option.splits)

lemma index_positions_distinct:
  "distinct (map fst rs) \<Longrightarrow>
     distinct (map fst (List.map_filter (\<lambda>(pk, v). map_option (\<lambda>ik. ((ik, pk), v)) (ev kp v)) rs))"
proof (induction rs)
  case Nil
  show ?case by (simp add: map_filter_simps)
next
  case (Cons p rs)
  obtain pk v where p: "p = (pk, v)" by (cases p)
  have "snd (fst e) \<in> fst ` set rs"
    if "e \<in> set (List.map_filter (\<lambda>(pk, v). map_option (\<lambda>ik. ((ik, pk), v)) (ev kp v)) rs)" for e
    using that by (force simp: in_set_map_filter image_iff)
  with Cons p show ?case
    by (cases "ev kp v") (fastforce simp: map_filter_simps image_iff)+
qed

lemma index_entries_sorted:
  "sorted_wrt (<) (map fst rs) \<Longrightarrow> sorted_wrt (<) (map fst (index_entries ev kp rs))"
proof -
  assume "sorted_wrt (<) (map fst rs)"
  then have "distinct (map fst rs)" by (simp add: strict_sorted_iff)
  then have "distinct (map fst (index_entries ev kp rs))"
    unfolding index_entries_def distinct_sort_key by (rule index_positions_distinct)
  moreover have "sorted (map fst (index_entries ev kp rs))"
    by (simp add: index_entries_def)
  ultimately show ?thesis by (simp add: strict_sorted_iff)
qed

lemma set_index_entries:
  "set (index_entries ev kp rs) = {((ik, pk), v) | ik pk v. (pk, v) \<in> set rs \<and> ev kp v = Some ik}"
  by (force simp: index_entries_def in_set_map_filter)

lemma index_entries_ahead:
  "filter (ahead r None) es = filter (\<lambda>e. in_range r (fst (fst e))) es"
  by (rule filter_cong) (simp_all add: ahead_def)

subsection \<open>The walks of cursor and cursorIndex\<close>

lemma cursor_call:
  assumes "opener h = Connected" and "map_of (objectStores db) (name h) = Some s" and "ordered s"
  shows "cursor ev None h db visit acc r
     = \<lparr>opened = [(name h, Readonly)], returned = Inr (acc, Pending),
        trace = visits 0 (store_entries (filter (\<lambda>p. in_range r (fst p)) (osRecords s))),
        states = map snd (walk_steps 0 visit acc
                   (store_entries (filter (\<lambda>p. in_range r (fst p)) (osRecords s)))),
        after = db\<rparr>"
proof -
  have sc: "store h db Readonly
       (\<lambda>s tx. let r = store_openCursor r tx in (fst r, Inr (walk visit acc (snd r))))
     = (Some \<lparr>txStore = name h, txMode = Readonly, txRequests = [OpenCursor r]\<rparr>,
        Inr (walk visit acc (Inr (Request 0))))"
    by (simp add: store_connected [OF assms(1,2)] store_openCursor_def place_def Let_def)
  show ?thesis
    unfolding cursor_def sc
    by (rule run_walk [OF assms(2)])
      (use assms(3) in \<open>simp_all add: is_cursor_def source_entries_def cursor_range_def
        store_entries_sorted ordered_def store_entries_ahead\<close>)
qed

lemma cursorIndex_call:
  assumes "opener h = Connected" and "map_of (objectStores db) (name h) = Some s" and "ordered s"
    and "map_of (index_paths s) ix = Some kp"
  shows "cursorIndex ev None h db ix visit acc r
     = \<lparr>opened = [(name h, Readonly)], returned = Inr (acc, Pending),
        trace = visits 0 (filter (\<lambda>e. in_range r (fst (fst e))) (index_entries ev kp (osRecords s))),
        states = map snd (walk_steps 0 visit acc
                   (filter (\<lambda>e. in_range r (fst (fst e))) (index_entries ev kp (osRecords s)))),
        after = db\<rparr>"
proof -
  from assms(4) have "contains (indexNames s) ix"
    by (auto simp: contains_def indexNames_def index_paths_def dest!: map_of_SomeD
        intro: rev_image_eqI)
  then have sc: "storeIndex h db Readonly ix
       (\<lambda>ix tx. let r = index_openCursor ix r tx in (fst r, Inr (walk visit acc (snd r))))
     = (Some \<lparr>txStore = name h, txMode = Readonly, txRequests = [IndexOpenCursor ix r]\<rparr>,
        Inr (walk visit acc (Inr (Request 0))))"
    by (simp add: storeIndex_def assms(1) store_connected [OF assms(1,2)] store_index_def
        index_openCursor_def place_def Let_def)
  show ?thesis
    unfolding cursorIndex_def sc
    by (rule run_walk [OF assms(2)])
      (use assms(3,4) in \<open>simp_all add: is_cursor_def source_entries_def cursor_range_def
        index_entries_sorted ordered_def index_entries_ahead\<close>)
qed

lemma cursor_visited:
  assumes "opener h = Connected" and "map_of (objectStores db) (name h) = Some s" and "ordered s"
  shows "visited (cursor ev None h db visit acc r) = filter (\<lambda>p. in_range r (fst p)) (osRecords s)"
  by (simp add: cursor_call [OF assms] visited_def visited_visits store_entries_def comp_def
      case_prod_beta)

lemma walk_outcome:
  assumes "c = \<lparr>opened = o1, returned = Inr (acc, Pending), trace = visits 0 es,
                states = map snd (walk_steps 0 visit acc es), after = db\<rparr>"
  shows "outcome c = Inr (foldl (\<lambda>a e. visit (fst (fst e), snd (fst e), snd e) a) acc es, Resolved ())"
    and "settling snd c = Some (success 0 Null)"
    and "visited c = map (\<lambda>e. (snd (fst e), snd e)) es"
proof -
  show "outcome c = Inr (foldl (\<lambda>a e. visit (fst (fst e), snd (fst e), snd e) a) acc es, Resolved ())"
    by (simp add: assms outcome_def walk_steps_last del: last.simps)
  have "zip (visits 0 es) (map snd (walk_steps 0 visit acc es)) = walk_steps 0 visit acc es"
    using zip_fst_snd [of "walk_steps 0 visit acc es"] by (simp add: walk_steps_trace)
  then show "settling snd c = Some (success 0 Null)"
    by (simp add: assms settling_def walk_steps_settling)
  show "visited c = map (\<lambda>e. (snd (fst e), snd e)) es"
    by (simp add: assms visited_def visited_visits)
qed

subsection \<open>The order of the records is kept by every request\<close>

lemma in_store_record: "x \<in> set (store_record k v rs) \<Longrightarrow> x = (k, v) \<or> x \<in> set rs"
  by (induction rs) (auto split: if_splits)

lemma store_record_sorted:
  "sorted_wrt (<) (map fst rs) \<Longrightarrow> sorted_wrt (<) (map fst (store_record k v rs))"
proof (induction rs)
  case Nil
  show ?case by simp
next
  case (Cons p rs)
  obtain k' v' where p: "p = (k', v')" by (cases p)
  from Cons.prems p have all: "\<forall>x \<in> fst ` set rs. k' < x" and srt: "sorted_wrt (<) (map fst rs)"
    by auto
  show ?case
  proof (cases "k < k'")
    case True
    with Cons.prems p all show ?thesis by (auto intro: less_trans)
  next
    case False
    show ?thesis
    proof (cases "k = k'")
      case True
      with Cons.prems p show ?thesis by auto
    next
      case ne: False
      with False have "k' < k" by simp
      with all have "\<forall>x \<in> fst ` set (store_record k v rs). k' < x"
        by (auto dest: in_store_record)
      with Cons.IH [OF srt] False ne p show ?thesis by auto
    qed
  qed
qed

lemma delete_record_sorted:
  "sorted_wrt (<) (map fst rs) \<Longrightarrow> sorted_wrt (<) (map fst (delete_record k rs))"
  by (simp add: delete_record_def sorted_wrt_map sorted_wrt_filter)

lemma perform_sorted:
  "sorted_wrt (<) (map fst rs) \<Longrightarrow> sorted_wrt (<) (map fst (fst (snd (perform ev ixs rq pos rs))))"
  by (cases rq)
    (simp_all add: perform_def store_record_sorted delete_record_sorted split: option.splits)

section \<open>What a cursor walk visits\<close>

text \<open>
  C7, as the code has it.  On a registered handle whose store exists, with the engine not
  failing: \<open>cursor\<close> is positioned on exactly the records of the store whose key is in the
  range, each once, in ascending order of the primary key; the visitor is applied to them
  in that order; and the promise resolves on the dispatch that shows no cursor.
  \<open>cursorIndex\<close> runs in the same way over the entries of the index, in ascending order of
  the index key (and of the primary key among equal index keys); the index has one entry
  for every record whose value has a key under the index's key path, and none for the
  other records.
\<close>

theorem cursor_walks_in_key_order:
  assumes "opener h = Connected" and "map_of (objectStores db) (name h) = Some s" and "ordered s"
  shows "visited (cursor ev None h db visit acc r) = filter (\<lambda>p. in_range r (fst p)) (osRecords s)
     \<and> sorted_wrt (<) (map fst (visited (cursor ev None h db visit acc r)))
     \<and> outcome (cursor ev None h db visit acc r)
         = Inr (foldl (\<lambda>a p. visit (fst p, fst p, snd p) a) acc
                  (filter (\<lambda>p. in_range r (fst p)) (osRecords s)), Resolved ())
     \<and> settling snd (cursor ev None h db visit acc r) = Some (success 0 Null)
     \<and> (map_of (index_paths s) ix = Some kp \<longrightarrow>
          trace (cursorIndex ev None h db ix visit acc r)
            = visits 0 (filter (\<lambda>e. in_range r (fst (fst e))) (index_entries ev kp (osRecords s)))
        \<and> sorted_wrt (<)
            (map fst (filter (\<lambda>e. in_range r (fst (fst e))) (index_entries ev kp (osRecords s))))
        \<and> set (index_entries ev kp (osRecords s))
            = {((ik, pk), v) | ik pk v. (pk, v) \<in> set (osRecords s) \<and> ev kp v = Some ik}
        \<and> outcome (cursorIndex ev None h db ix visit acc r)
            = Inr (foldl (\<lambda>a e. visit (fst (fst e), snd (fst e), snd e) a) acc
                     (filter (\<lambda>e. in_range r (fst (fst e))) (index_entries ev kp (osRecords s))),
                   Resolved ())
        \<and> settling snd (cursorIndex ev None h db ix visit acc r) = Some (success 0 Null))"
proof (intro conjI impI)
  let ?rs = "filter (\<lambda>p. in_range r (fst p)) (osRecords s)"
  note c = walk_outcome [OF cursor_call [OF assms, of ev visit acc r]]
  have v: "map (\<lambda>e. (snd (fst e), snd e)) (store_entries ?rs) = ?rs"
    by (simp add: store_entries_def comp_def case_prod_beta)
  show 1: "visited (cursor ev None h db visit acc r) = ?rs"
    using c(3) v by simp
  from assms(3) have "sorted_wrt (<) (map fst ?rs)"
    by (simp add: ordered_def sorted_wrt_map sorted_wrt_filter)
  with 1 show "sorted_wrt (<) (map fst (visited (cursor ev None h db visit acc r)))" by simp
  have "foldl (\<lambda>a e. visit (fst (fst e), snd (fst e), snd e) a) acc (store_entries ?rs)
      = foldl (\<lambda>a p. visit (fst p, fst p, snd p) a) acc ?rs"
    by (simp add: store_entries_def foldl_map case_prod_beta)
  with c(1) show "outcome (cursor ev None h db visit acc r)
         = Inr (foldl (\<lambda>a p. visit (fst p, fst p, snd p) a) acc ?rs, Resolved ())"
    by simp
  show "settling snd (cursor ev None h db visit acc r) = Some (success 0 Null)"
    by (rule c(2))
next
  assume i: "map_of (index_paths s) ix = Some kp"
  let ?es = "filter (\<lambda>e. in_range r (fst (fst e))) (index_entries ev kp (osRecords s))"
  note cc = cursorIndex_call [OF assms i, of ev visit acc r]
  note c = walk_outcome [OF cc]
  show "trace (cursorIndex ev None h db ix visit acc r) = visits 0 ?es"
    by (simp add: cc)
  from assms(3) show "sorted_wrt (<) (map fst ?es)"
    using index_entries_sorted [of "osRecords s" ev kp]
    by (simp add: ordered_def sorted_wrt_map sorted_wrt_filter)
  show "set (index_entries ev kp (osRecords s))
            = {((ik, pk), v) | ik pk v. (pk, v) \<in> set (osRecords s) \<and> ev kp v = Some ik}"
    by (rule set_index_entries)
  show "outcome (cursorIndex ev None h db ix visit acc r)
            = Inr (foldl (\<lambda>a e. visit (fst (fst e), snd (fst e), snd e) a) acc ?es, Resolved ())"
    by (rule c(1))
  show "settling snd (cursorIndex ev None h db ix visit acc r) = Some (success 0 Null)"
    by (rule c(2))
qed

lemma users_ordered: "ordered users_store"
  by (simp add: ordered_def users_store_def)

lemma users_byAge: "map_of (index_paths users_store) ''byAge'' = Some ''age''"
  by (simp add: users_store_def index_paths_def)

lemma users_by_age:
  "index_entries path_of ''age'' (osRecords users_store) = [((20, 3), cyd), ((30, 1), ann)]"
  by (simp add: index_entries_def users_store_def path_of_def ann_def bob_def cyd_def)

theorem cursor_walks_in_key_order_witness:
  "opener users_handle = Connected
   \<and> map_of (objectStores app) (name users_handle) = Some users_store
   \<and> ordered users_store
   \<and> map_of (index_paths users_store) ''byAge'' = Some ''age''
   \<and> visited (cursor path_of None users_handle app (\<lambda>c n. n + fst c) 0
         (Some \<lparr>lower = Some 1, upper = None, lowerOpen = True, upperOpen = False\<rparr>))
       = [(2, bob), (3, cyd)]
   \<and> outcome (cursor path_of None users_handle app (\<lambda>c n. n + fst c) 0
         (Some \<lparr>lower = Some 1, upper = None, lowerOpen = True, upperOpen = False\<rparr>))
       = Inr (5, Resolved ())
   \<and> trace (cursorIndex path_of None users_handle app ''byAge'' (\<lambda>c n. n + fst c) 0
         (Some \<lparr>lower = Some 1, upper = None, lowerOpen = True, upperOpen = False\<rparr>))
       = visits 0 [((20, 3), cyd), ((30, 1), ann)]
   \<and> outcome (cursorIndex path_of None users_handle app ''byAge'' (\<lambda>c n. n + fst c) 0
         (Some \<lparr>lower = Some 1, upper = None, lowerOpen = True, upperOpen = False\<rparr>))
       = Inr (50, Resolved ())"
proof -
  have c: "opener users_handle = Connected" by (simp add: users_connected)
  have r: "filter (\<lambda>p. in_range
       (Some \<lparr>lower = Some 1, upper = None, lowerOpen = True, upperOpen = False\<rparr>) (fst p))
       (osRecords users_store) = [(2, bob), (3, cyd)]"
    by (simp add: users_store_def in_range_def)
  have e: "filter (\<lambda>e. in_range
       (Some \<lparr>lower = Some 1, upper = None, lowerOpen = True, upperOpen = False\<rparr>) (fst (fst e)))
       [((20, 3), cyd), ((30, 1), ann)] = [((20 :: int, 3 :: int), cyd), ((30, 1), ann)]"
    by (simp add: in_range_def)
  from c users_in_app users_ordered users_byAge r e users_by_age
    cursor_walks_in_key_order [OF c users_in_app users_ordered, of path_of "\<lambda>c n. n + fst c" 0
      "Some \<lparr>lower = Some 1, upper = None, lowerOpen = True, upperOpen = False\<rparr>"
      "''byAge''" "''age''"]
  show ?thesis by simp
qed

text \<open>
  C7 as stated fails for \<open>cursorIndex\<close>: the record of \<open>users\<close> whose value has no \<open>age\<close> is
  a record of the store, and the walk over the index \<open>byAge\<close> is never positioned on it.
\<close>

theorem cursorIndex_visits_every_record_counterexample:
  "\<not> (\<forall>p \<in> set (osRecords users_store).
        p \<in> set (visited (cursorIndex path_of None users_handle app ''byAge'' (\<lambda>c n. n + fst c) 0 None)))"
proof -
  have c: "opener users_handle = Connected" by (simp add: users_connected)
  have "visited (cursorIndex path_of None users_handle app ''byAge'' (\<lambda>c n. n + fst c) 0 None)
      = [(3, cyd), (1, ann)]"
    using walk_outcome(3) [OF cursorIndex_call [OF c users_in_app users_ordered users_byAge,
        of path_of "\<lambda>c n. n + fst c" 0 None]]
    by (simp add: users_by_age in_range_def)
  moreover have "(2, bob) \<in> set (osRecords users_store)" by (simp add: users_store_def)
  moreover have "bob \<noteq> cyd" "bob \<noteq> ann" by (simp_all add: bob_def cyd_def ann_def)
  ultimately show ?thesis by auto
qed

section \<open>getAll\<close>

lemma getAll_call:
  assumes "opener h = Connected" and "map_of (objectStores db) (name h) = Some s" and "ordered s"
  shows "outcome (getAll ev None h db r)
           = Inr (Resolved (map snd (filter (\<lambda>p. in_range r (fst p)) (osRecords s))))"
    and "visited (getAll ev None h db r) = filter (\<lambda>p. in_range r (fst p)) (osRecords s)"
    and "settling id (getAll ev None h db r) = Some (success 0 Null)"
proof -
  let ?c = "cursor ev None h db (\<lambda>c items. items @ [snd (snd c)]) [] r"
  let ?es = "store_entries (filter (\<lambda>p. in_range r (fst p)) (osRecords s))"
  note cc = cursor_call [OF assms, of ev "\<lambda>c items. items @ [snd (snd c)]" "[]" r]
  have f: "foldl (\<lambda>a e. a @ [snd e]) acc es = acc @ map snd es"
    for acc :: "'b list" and es :: "(('a \<times> 'a) \<times> 'b) list"
    by (induction es arbitrary: acc) simp_all
  have l: "last (Pending # map awaited (map snd (walk_steps 0 (\<lambda>c items. items @ [snd (snd c)]) acc es)))
      = Resolved (acc @ map snd es)"
    for acc :: "'b list" and es :: "(('a \<times> 'a) \<times> 'b) list"
    by (induction es arbitrary: acc) (simp_all add: awaited_def)
  have m: "map snd ?es = map snd (filter (\<lambda>p. in_range r (fst p)) (osRecords s))"
    by (simp add: store_entries_def comp_def case_prod_beta)
  show "outcome (getAll ev None h db r)
           = Inr (Resolved (map snd (filter (\<lambda>p. in_range r (fst p)) (osRecords s))))"
    using l [of "[]" ?es] m
    by (simp add: getAll_def async_return_def cc outcome_def awaited_def del: last.simps)
  have "visited (getAll ev None h db r) = visited ?c"
    by (simp add: getAll_def visited_def async_return_fields)
  with cursor_visited [OF assms, of ev "\<lambda>c items. items @ [snd (snd c)]" "[]" r]
  show "visited (getAll ev None h db r) = filter (\<lambda>p. in_range r (fst p)) (osRecords s)"
    by simp
  have s: "map_option fst (find (\<lambda>x. snd x \<noteq> Pending)
             (zip (visits 0 es)
                (map awaited (map snd (walk_steps 0 (\<lambda>c items. items @ [snd (snd c)]) acc es)))))
        = Some (success 0 Null)"
    for acc :: "'b list" and es :: "(('a \<times> 'a) \<times> 'b) list"
    by (induction es arbitrary: acc) (simp_all add: awaited_def visits_def)
  from s [of ?es "[]"] show "settling id (getAll ev None h db r) = Some (success 0 Null)"
    by (simp add: getAll_def async_return_def cc settling_def awaited_def)
qed

lemma clear_call:
  assumes "opener h = Connected" and "map_of (objectStores db) (name h) = Some s"
  shows "outcome (clear ev None h db) = Inr (Resolved Undefined)"
    and "after (clear ev None h db) = write_back db (name h) s (Some [])"
  using assms
  by (simp_all add: clear_def store_connected run_def returning_def store_clear_def place_def
      objectStore_def enumerate_simps fault_def perform_def promisify_def resolve_def outcome_def
      Let_def event_loop_step event_loop_commit dispatch_fields requeue_def)

text \<open>The \<open>getAll\<close> of the store handle resolves with the values of the records the walk
  visited, in the order of the visits; after \<open>clear\<close> it resolves with the empty sequence.\<close>

lemma getAll_returns_values:
  assumes "opener h = Connected" and "map_of (objectStores db) (name h) = Some s" and "ordered s"
  shows "outcome (getAll ev None h db r) = Inr (Resolved (map snd (visited (getAll ev None h db r))))
       \<and> visited (getAll ev None h db r) = filter (\<lambda>p. in_range r (fst p)) (osRecords s)
       \<and> outcome (getAll ev None h (after (clear ev None h db)) None) = Inr (Resolved [])"
proof -
  let ?db = "after (clear ev None h db)"
  have m: "map_of (objectStores ?db) (name h) = Some (s\<lparr>osRecords := []\<rparr>)"
    unfolding clear_call(2) [OF assms(1,2)] using assms(2) by (rule map_of_write_back)
  have o: "ordered (s\<lparr>osRecords := []\<rparr>)" by (simp add: ordered_def)
  from getAll_call(1,2) [OF assms, of ev r] getAll_call(1) [OF assms(1) m o, of ev None]
  show ?thesis by simp
qed

section \<open>The getAll of src/index.ts\<close>

text \<open>
  C8 (the code against the claim).  On the store \<open>users\<close> with its three records, the
  \<open>getAll\<close> of \<open>src/index.ts\<close> returns a promise that is resolved already, with an array
  that is still empty; what the walk pushes into that array afterwards are the cursors, not
  their values.  The \<open>getAll\<close> of the store handle resolves with the three values.
\<close>

theorem getAll_index_ts_returns_cursors:
  "returned (getAll_index_ts path_of None ''users'' app None) = Inr (Resolved [])
   \<and> outcome (getAll_index_ts path_of None ''users'' app None)
       = Inr (Resolved [Cursor 1 1 ann, Cursor 2 2 bob, Cursor 3 3 cyd])
   \<and> outcome (getAll path_of None users_handle app None) = Inr (Resolved [ann, bob, cyd])"
proof -
  have c: "opener users_handle = Connected" by (simp add: users_connected)
  have a: "getAll_index_ts path_of None ''users'' app None
      = \<lparr>opened = [(''users'', Readonly)], returned = Inr (Resolved []),
         trace = visits 0 [((1, 1), ann), ((2, 2), bob), ((3, 3), cyd)],
         states = [Resolved [Cursor 1 1 ann], Resolved [Cursor 1 1 ann, Cursor 2 2 bob],
                   Resolved [Cursor 1 1 ann, Cursor 2 2 bob, Cursor 3 3 cyd],
                   Resolved [Cursor 1 1 ann, Cursor 2 2 bob, Cursor 3 3 cyd],
                   Resolved [Cursor 1 1 ann, Cursor 2 2 bob, Cursor 3 3 cyd]],
         after = app\<rparr>"
    by (simp add: getAll_index_ts_def cursor_index_ts_def db_transaction_def contains_def
        objectStoreNames_def cursor_range_def store_openCursor_def
        place_def run_def objectStore_def stores_of_app enumerate_simps Let_def event_loop_step
        event_loop_commit fault_def perform_def iterate_cursor_def source_entries_def
        store_entries_def users_store_def ahead_def in_range_def requeue_def dispatch_fields
        async_return_def awaited_def visits_def shown_def write_back_def app_def)
  have b: "outcome (getAll path_of None users_handle app None) = Inr (Resolved [ann, bob, cyd])"
    using getAll_call(1) [OF c users_in_app users_ordered, of path_of None]
    by (simp add: users_store_def in_range_def)
  from a b show ?thesis by (simp add: outcome_def)
qed

section \<open>Batches\<close>

lemma perform_no_cursor:
  "\<not> is_cursor rq \<Longrightarrow> snd (snd (perform ev ixs rq pos rs)) = None"
  by (cases rq) (simp_all add: perform_def is_cursor_def)

lemma event_loop_batch:
  "list_all (\<lambda>j. \<not> is_cursor (fst (snd j))) q \<Longrightarrow>
     event_loop ev ixs None h n q rs st
       = (deliver h (served ev ixs q rs @ [completed]) st, Some (applied ev ixs q rs))"
proof (induction q arbitrary: n rs st)
  case Nil
  show ?case by (simp add: event_loop_commit fault_def Let_def)
next
  case (Cons j q)
  obtain i rq pos where j: "j = (i, rq, pos)" by (cases j)
  from Cons.prems j have c: "\<not> is_cursor rq" and q: "list_all (\<lambda>j. \<not> is_cursor (fst (snd j))) q"
    by simp_all
  show ?case
    by (simp add: j event_loop_step fault_def perform_no_cursor [OF c] requeue_def Cons.IH [OF q]
        Let_def)
qed

lemma event_loop_aborts:
  "list_all (\<lambda>j. \<not> is_cursor (fst (snd j))) q \<Longrightarrow> n \<le> m \<Longrightarrow> m \<le> n + length q \<Longrightarrow>
     snd (event_loop ev ixs (Some (m, e)) h n q rs st) = None"
proof (induction q arbitrary: n rs st)
  case Nil
  then show ?case by (simp add: event_loop_commit fault_def)
next
  case (Cons j q)
  obtain i rq pos where j: "j = (i, rq, pos)" by (cases j)
  from Cons.prems j have c: "\<not> is_cursor rq" and q: "list_all (\<lambda>j. \<not> is_cursor (fst (snd j))) q"
    by simp_all
  show ?case
  proof (cases "m = n")
    case True
    then show ?thesis by (simp add: j event_loop_fails fault_def)
  next
    case False
    with Cons.prems have "Suc n \<le> m" "m \<le> Suc n + length q" by simp_all
    from Cons.IH [OF q this] False show ?thesis
      by (simp add: j event_loop_step fault_def perform_no_cursor [OF c] requeue_def)
  qed
qed

subsection \<open>A promise on the transaction\<close>

lemma promisify_transaction_listen:
  "listen (promisify Transaction) (success i res) p = (p, False)"
  "listen (promisify Transaction) completed Pending = (Resolved Undefined, False)"
  "listen (promisify Transaction) (aborted e) Pending = (Rejected (ErrorValue (Some e)), False)"
  by (simp_all add: promisify_def dispatch_fields resolve_def reject_def)

lemma deliver_last_settled:
  assumes "ds \<noteq> []" and "p \<noteq> Pending"
  shows "snd (last (deliver (listen (promisify request)) ds p)) = p"
proof -
  from assms(1) have ne: "deliver (listen (promisify request)) ds p \<noteq> []"
    using length_deliver [of "listen (promisify request)" ds p] by auto
  have "snd (last (deliver (listen (promisify request)) ds p))
      = last (map snd (deliver (listen (promisify request)) ds p))"
    using ne by (simp add: last_map)
  also have "\<dots> = last (replicate (length ds) p)"
    by (simp add: deliver_settled [OF assms(2)])
  also have "\<dots> = p" using assms(1) by simp
  finally show ?thesis .
qed

lemma deliver_abort_dispatches:
  "snd (last (deliver (listen (promisify Transaction)) (abort_dispatches i e q) Pending))
         = Rejected (ErrorValue None)"
proof -
  let ?d1 = "\<lparr>target = Request i, signal = Onerror, result = Undefined, error = Some e\<rparr>
    :: ('a, 'b) dispatch"
  let ?d2 = "\<lparr>target = Transaction, signal = Onerror, result = Undefined, error = None\<rparr>
    :: ('a, 'b) dispatch"
  let ?rest = "concat (map (\<lambda>j.
         [\<lparr>target = Request (fst j), signal = Onerror, result = Undefined, error = Some AbortError\<rparr>,
          \<lparr>target = Transaction, signal = Onerror, result = Undefined, error = Some e\<rparr>]) q)
     @ [aborted e :: ('a, 'b) dispatch]"
  have 1: "listen (promisify Transaction) ?d1 Pending = (Pending, False)"
    and 2: "listen (promisify Transaction) ?d2 Pending = (Rejected (ErrorValue None), False)"
    by (simp_all add: promisify_def reject_def)
  have ne: "?rest \<noteq> []" by simp
  then have dne: "deliver (listen (promisify Transaction)) ?rest (Rejected (ErrorValue None)) \<noteq> []"
    using length_deliver [of "listen (promisify Transaction)" ?rest "Rejected (ErrorValue None)"]
    by (metis length_0_conv)
  have "abort_dispatches i e q = ?d1 # ?d2 # ?rest" by (simp add: abort_dispatches_def)
  then have "last (deliver (listen (promisify Transaction)) (abort_dispatches i e q) Pending)
      = last (deliver (listen (promisify Transaction)) ?rest (Rejected (ErrorValue None)))"
    using dne by (simp add: 1 2 Let_def del: append_is_Nil_conv)
  with deliver_last_settled [OF ne, of "Rejected (ErrorValue None)" Transaction]
  show ?thesis by simp
qed

text \<open>A promise on the transaction is resolved by nothing but the complete event, which is
  the last dispatch of a transaction that commits; when the transaction does not commit,
  the promise is rejected.\<close>

lemma transaction_promise:
  "fst (event_loop ev ixs f (listen (promisify Transaction)) n q rs Pending) \<noteq> []
   \<and> (case snd (event_loop ev ixs f (listen (promisify Transaction)) n q rs Pending) of
        Some rs' \<Rightarrow>
          snd (last (fst (event_loop ev ixs f (listen (promisify Transaction)) n q rs Pending)))
            = Resolved Undefined
          \<and> find (\<lambda>x. snd x \<noteq> Pending)
               (fst (event_loop ev ixs f (listen (promisify Transaction)) n q rs Pending))
            = Some (completed, Resolved Undefined)
          \<and> fst (last (fst (event_loop ev ixs f (listen (promisify Transaction)) n q rs Pending)))
            = completed
      | None \<Rightarrow>
          (\<exists>r. snd (last (fst (event_loop ev ixs f (listen (promisify Transaction)) n q rs Pending)))
            = Rejected r))"
proof (induction n q rs "Pending :: ('a, 'b) result settlement"
    rule: event_loop_induct [where ev = ev and ixs = ixs and f = f
      and h = "listen (promisify Transaction)"])
  case (Commit n rs)
  show ?case
    by (simp add: event_loop_commit promisify_transaction_listen split: option.splits)
next
  case (Step n i rq pos q rs)
  show ?case
  proof (cases "fault f n")
    case (Some e)
    then show ?thesis
      using deliver_abort_dispatches [of i e q]
        length_deliver [of "listen (promisify Transaction)" "abort_dispatches i e q" Pending]
      by (auto simp: event_loop_fails abort_dispatches_def)
  next
    case None
    from Step [OF None] None show ?thesis
      by (simp add: event_loop_step promisify_transaction_listen requeue_def
          split: option.splits)
  qed
qed

lemma run_transaction_promise:
  assumes "map_of (objectStores db) (txStore tx) = Some s"
  shows "run ev f db (Some tx, Inr (promisify Transaction))
     = \<lparr>opened = [(txStore tx, txMode tx)], returned = Inr Pending,
        trace = map fst (fst (event_loop ev (index_paths s) f (listen (promisify Transaction)) 0
                  (jobs_of (txRequests tx)) (osRecords s) Pending)),
        states = map snd (fst (event_loop ev (index_paths s) f (listen (promisify Transaction)) 0
                  (jobs_of (txRequests tx)) (osRecords s) Pending)),
        after = write_back db (txStore tx) s
                  (snd (event_loop ev (index_paths s) f (listen (promisify Transaction)) 0
                  (jobs_of (txRequests tx)) (osRecords s) Pending))\<rparr>"
proof -
  have "initial (promisify Transaction :: ('a, 'b, ('a, 'b) result settlement) promise) = Pending"
    by (simp add: promisify_def)
  with assms show ?thesis
    by (simp add: run_def objectStore_def jobs_of_def Let_def)
qed

text \<open>A call that ends on \<open>promisify(store.transaction)\<close>: what it leaves, and what
  settles its promise.\<close>

lemma transaction_call:
  assumes "map_of (objectStores db) (txStore tx) = Some s"
    and "c = run ev f db (Some tx, Inr (promisify Transaction))"
  shows "opened c = [(txStore tx, txMode tx)]"
    and "outcome c = Inr (Resolved x) \<Longrightarrow>
           x = Undefined \<and> settling id c = Some completed \<and> last (trace c) = completed"
    and "outcome c = Inr Pending \<Longrightarrow> False"
    and "after c = write_back db (txStore tx) s
           (snd (event_loop ev (index_paths s) f (listen (promisify Transaction)) 0
                  (jobs_of (txRequests tx)) (osRecords s) Pending))"
    and "snd (event_loop ev (index_paths s) f (listen (promisify Transaction)) 0
                  (jobs_of (txRequests tx)) (osRecords s) Pending) = None
         \<Longrightarrow> \<exists>r. outcome c = Inr (Rejected r)"
    and "snd (event_loop ev (index_paths s) f (listen (promisify Transaction)) 0
                  (jobs_of (txRequests tx)) (osRecords s) Pending) = Some rs'
         \<Longrightarrow> outcome c = Inr (Resolved Undefined)"
proof -
  let ?w = "event_loop ev (index_paths s) f (listen (promisify Transaction)) 0
                  (jobs_of (txRequests tx)) (osRecords s) Pending"
  note r = run_transaction_promise [OF assms(1), of ev f]
  note p = transaction_promise [of ev "index_paths s" f 0 "jobs_of (txRequests tx)" "osRecords s"]
  from p have ne: "fst ?w \<noteq> []" by simp
  have o: "outcome c = Inr (snd (last (fst ?w)))"
    using ne by (simp add: assms(2) r outcome_def last_map)
  have z: "zip (map fst (fst ?w)) (map snd (fst ?w)) = fst ?w" by (rule zip_fst_snd)
  show "opened c = [(txStore tx, txMode tx)]" by (simp add: assms(2) r)
  show "after c = write_back db (txStore tx) s (snd ?w)" by (simp add: assms(2) r)
  show "x = Undefined \<and> settling id c = Some completed \<and> last (trace c) = completed"
    if "outcome c = Inr (Resolved x)"
  proof (cases "snd ?w")
    case None
    with p that o show ?thesis by auto
  next
    case (Some rs')
    with p that o ne show ?thesis
      by (simp add: assms(2) r settling_def z last_map)
  qed
  show False if "outcome c = Inr Pending"
    using that p o by (cases "snd ?w") auto
  show "\<exists>r. outcome c = Inr (Rejected r)" if "snd ?w = None"
    using that p o by auto
  show "outcome c = Inr (Resolved Undefined)" if "snd ?w = Some rs'"
    using that p o by auto
qed

subsection \<open>setMany\<close>

lemma put_each_places:
  assumes "osKeyPath s = Some kp" and "list_all (\<lambda>v. ev kp v \<noteq> None) vs"
    and "txMode tx = Readwrite"
  shows "put_each ev s vs tx
     = (tx\<lparr>txRequests := txRequests tx @ map (\<lambda>v. Put (the (ev kp v)) v) vs\<rparr>, Inr ())"
  using assms(2,3)
proof (induction vs arbitrary: tx)
  case Nil
  show ?case by simp
next
  case (Cons v vs)
  from Cons.prems obtain k where k: "ev kp v = Some k" by auto
  from Cons.prems have "list_all (\<lambda>v. ev kp v \<noteq> None) vs" by simp
  from Cons.IH [OF this, of "tx\<lparr>txRequests := txRequests tx @ [Put k v]\<rparr>"] Cons.prems(2) k
  show ?case by (simp add: store_put_def place_def assms(1))
qed

lemma jobs_of_no_cursor:
  "list_all (\<lambda>rq. \<not> is_cursor rq) rqs
     \<Longrightarrow> list_all (\<lambda>j. \<not> is_cursor (fst (snd j))) (jobs_of rqs)"
  by (auto simp: jobs_of_def list_all_iff enumerate_eq_zip dest: set_zip_rightD)

lemma applied_puts:
  "applied ev ixs (map (\<lambda>(i, rq). (i, rq, None)) (enumerate n (map (\<lambda>p. Put (fst p) (snd p)) kvs))) rs
     = foldl (\<lambda>rs p. store_record (fst p) (snd p) rs) rs kvs"
  by (induction kvs arbitrary: n rs) (simp_all add: perform_def)

lemma map_of_store_record_upd: "map_of (store_record k v rs) = (map_of rs)(k \<mapsto> v)"
  by (rule ext) (simp add: map_of_store_record map_of_store_record_other)

lemma map_of_stored:
  "map_of (foldl (\<lambda>rs p. store_record (fst p) (snd p) rs) rs kvs) = map_of rs ++ map_of (rev kvs)"
proof (induction kvs arbitrary: rs)
  case Nil
  show ?case by simp
next
  case (Cons p kvs)
  have "map_of rs ++ map_of (rev kvs @ [p]) = (map_of rs)(fst p \<mapsto> snd p) ++ map_of (rev kvs)"
    by (cases p) (simp add: map_add_def fun_eq_iff split: option.splits)
  moreover have "foldl (\<lambda>rs p. store_record (fst p) (snd p) rs) rs (p # kvs)
      = foldl (\<lambda>rs p. store_record (fst p) (snd p) rs) (store_record (fst p) (snd p) rs) kvs"
    by simp
  ultimately show ?case
    by (simp only: Cons map_of_store_record_upd rev.simps)
qed

lemma setMany_call:
  assumes "opener h = Connected" and "map_of (objectStores db) (name h) = Some s"
    and "osKeyPath s = Some kp" and "list_all (\<lambda>v. ev kp v \<noteq> None) vs"
  shows "setMany ev f h db vs
     = run ev f db (Some \<lparr>txStore = name h, txMode = Readwrite,
                           txRequests = map (\<lambda>v. Put (the (ev kp v)) v) vs\<rparr>,
                    Inr (promisify Transaction))"
  by (simp add: setMany_def store_connected [OF assms(1,2)] returning_def
      put_each_places [where ev = ev, OF assms(3,4)])

subsection \<open>getMany\<close>

lemma served_gets:
  "served ev ixs (map (\<lambda>(i, rq). (i, rq, None)) (enumerate n (map Get ks))) rs
     = map (\<lambda>(i, k). success i (retrieved rs k)) (enumerate n ks)"
  by (induction ks arbitrary: n) (simp_all add: perform_def retrieved_def)

lemma applied_gets:
  "applied ev ixs (map (\<lambda>(i, rq). (i, rq, None)) (enumerate n (map Get ks))) rs = rs"
  by (induction ks arbitrary: n) (simp_all add: perform_def)

lemma listen_each_success:
  assumes "length sts = N" and "j < N"
  shows "map (\<lambda>(p, s). fst (listen p (success j r) s))
           (zip (map (\<lambda>i. promisify (Request i)) [0..<N]) sts)
         = sts[j := resolve r (sts ! j)]"
proof (rule nth_equalityI)
  show "length (map (\<lambda>(p, s). fst (listen p (success j r) s))
           (zip (map (\<lambda>i. promisify (Request i)) [0..<N]) sts)) = length (sts[j := resolve r (sts ! j)])"
    using assms by simp
next
  fix i
  assume "i < length (map (\<lambda>(p, s). fst (listen p (success j r) s))
           (zip (map (\<lambda>i. promisify (Request i)) [0..<N]) sts))"
  with assms have i: "i < N" by simp
  with assms show "map (\<lambda>(p, s). fst (listen p (success j r) s))
           (zip (map (\<lambda>i. promisify (Request i)) [0..<N]) sts) ! i
         = sts[j := resolve r (sts ! j)] ! i"
    by (simp add: promisify_def dispatch_fields nth_list_update)
qed

lemma listen_each_completed:
  assumes "length sts = N"
  shows "map (\<lambda>(p, s). fst (listen p completed s))
           (zip (map (\<lambda>i. promisify (Request i)) [0..<N]) sts) = sts"
proof (rule nth_equalityI)
  show "length (map (\<lambda>(p, s). fst (listen p completed s))
           (zip (map (\<lambda>i. promisify (Request i)) [0..<N]) sts)) = length sts"
    using assms by simp
next
  fix i
  assume "i < length (map (\<lambda>(p, s). fst (listen p completed s))
           (zip (map (\<lambda>i. promisify (Request i)) [0..<N]) sts))"
  with assms have i: "i < N" by simp
  with assms show "map (\<lambda>(p, s). fst (listen p completed s))
           (zip (map (\<lambda>i. promisify (Request i)) [0..<N]) sts) ! i = sts ! i"
    by (simp add: promisify_def dispatch_fields)
qed

lemma all_settled_prefix:
  "all_settled (map Resolved vs @ replicate m Pending) Pending
     = (if m = 0 then Resolved vs else Pending)"
proof -
  have r: "List.map_filter (\<lambda>s. case s of Rejected r \<Rightarrow> Some r | _ \<Rightarrow> None)
             (map Resolved vs @ replicate m Pending) = []"
    by (induction vs) (simp_all add: map_filter_def)
  have v: "List.map_filter (\<lambda>s. case s of Resolved v \<Rightarrow> Some v | _ \<Rightarrow> None) (map Resolved vs) = vs"
    by (induction vs) simp_all
  have a: "list_all (\<lambda>s. s \<noteq> Pending) (map Resolved vs @ replicate m Pending) \<longleftrightarrow> m = 0"
    by (cases m) (simp_all add: list_all_iff)
  show ?thesis
    using v by (simp add: all_settled_def r a del: list_all_append)
qed

lemma all_settled_resolved: "all_settled sts (Resolved vs) = Resolved vs"
  by (simp add: all_settled_def)

lemma deliver_nonempty: "ds \<noteq> [] \<Longrightarrow> deliver h ds st \<noteq> []"
  by (cases ds) (simp_all add: Let_def)

lemma deliver_all:
  fixes res :: "'x \<Rightarrow> ('k, 'v) result"
  assumes "N = length done + length ks"
  shows "snd (last (deliver (listen (Promise_all (map (\<lambda>i. promisify (Request i)) [0..<N])))
            (map (\<lambda>(i, k). success i (res k)) (enumerate (length done) ks) @ [completed])
            (map Resolved done @ replicate (length ks) Pending,
             if ks = [] then Resolved done else Pending)))
         = (map Resolved (done @ map res ks), Resolved (done @ map res ks))"
  using assms
proof (induction ks arbitrary: "done")
  case Nil
  then show ?case
    by (simp add: Promise_all_def listen_each_completed all_settled_resolved Let_def)
next
  case (Cons k ks)
  let ?ps = "map (\<lambda>i. promisify (Request i)) [0..<N] :: ('k, 'v, ('k, 'v) result settlement) promise list"
  let ?sts = "map Resolved done @ replicate (Suc (length ks)) Pending"
  let ?sts' = "map Resolved (done @ [res k]) @ replicate (length ks) Pending"
  let ?d = "success (length done) (res k)"
  have len: "length ?sts = N" using Cons.prems by simp
  have j: "length done < N" using Cons.prems by simp
  have upd: "?sts[length done := resolve (res k) (?sts ! length done)] = ?sts'"
    by (simp add: list_update_append nth_append resolve_def)
  have e: "map (\<lambda>(p, s). fst (listen p ?d s)) (zip ?ps ?sts) = ?sts'"
    using listen_each_success [OF len j, of "res k"] upd by (simp only:)
  have "listen (Promise_all ?ps) ?d (?sts, Pending) = ((?sts', all_settled ?sts' Pending), False)"
    unfolding Promise_all_def
    by (simp only: promise.select_convs Let_def fst_conv snd_conv e)
  then have st: "fst (listen (Promise_all ?ps) ?d (?sts, Pending))
      = (?sts', if ks = [] then Resolved (done @ [res k]) else Pending)"
    using all_settled_prefix [of "done @ [res k]" "length ks"] by (simp only: fst_conv) simp
  have n: "N = length (done @ [res k]) + length ks" using Cons.prems by simp
  have en: "enumerate (length done) (k # ks) = (length done, k) # enumerate (length (done @ [res k])) ks"
    by simp
  have rp: "replicate (length (k # ks)) (Pending :: ('k, 'v) result settlement)
      = replicate (Suc (length ks)) Pending"
    by simp
  have ifc: "(if k # ks = [] then Resolved done else (Pending :: ('k, 'v) result list settlement))
      = Pending"
    by simp
  have ne: "deliver (listen (Promise_all ?ps))
      (map (\<lambda>(i, k). success i (res k)) (enumerate (length (done @ [res k])) ks) @ [completed])
      (?sts', if ks = [] then Resolved (done @ [res k]) else Pending) \<noteq> []"
    by (rule deliver_nonempty) simp
  have "snd (last (deliver (listen (Promise_all ?ps))
            (map (\<lambda>(i, k). success i (res k)) (enumerate (length done) (k # ks)) @ [completed])
            (?sts, Pending)))
      = snd (last (deliver (listen (Promise_all ?ps))
      (map (\<lambda>(i, k). success i (res k)) (enumerate (length (done @ [res k])) ks) @ [completed])
      (?sts', if ks = [] then Resolved (done @ [res k]) else Pending)))"
    unfolding en
    by (simp only: list.map prod.case append_Cons deliver.simps Let_def st last_ConsR [OF ne])
  with Cons.IH [OF n] show ?case
    unfolding rp ifc by simp
qed

lemma getMany_call:
  fixes db :: "('k::linorder, 'v) database"
  assumes "opener h = Connected" and "map_of (objectStores db) (name h) = Some s"
  shows "outcome (getMany ev None h db ks)
           = Inr (map Resolved (map (retrieved (osRecords s)) ks),
                  Resolved (map (retrieved (osRecords s)) ks))"
proof -
  let ?ps = "map (\<lambda>i. promisify (Request i)) [0..<length ks]
     :: ('k, 'v, ('k, 'v) result settlement) promise list"
  let ?tx = "\<lparr>txStore = name h, txMode = Readonly, txRequests = map Get ks\<rparr> :: ('k, 'v) transaction"
  let ?st = "(replicate (length ks) Pending, if ks = [] then Resolved [] else Pending)
     :: ('k, 'v) result settlement list \<times> ('k, 'v) result list settlement"
  let ?D = "deliver (listen (Promise_all ?ps))
           (map (\<lambda>(i, k). success i (retrieved (osRecords s) k)) (enumerate 0 ks) @ [completed]) ?st"
  have sc: "store h db Readonly (\<lambda>s tx. returning Promise_all (get_each ks tx))
      = (Some ?tx, Inr (Promise_all ?ps))"
    by (simp add: store_connected [OF assms] returning_def get_each_places)
  have i: "initial (Promise_all ?ps) = ?st"
    using all_settled_prefix [of "[]" "length ks"]
    by (simp add: Promise_all_def promisify_def comp_def map_replicate_const)
  have nc: "list_all (\<lambda>j. \<not> is_cursor (fst (snd j))) (jobs_of (map Get ks))"
    by (rule jobs_of_no_cursor) (simp add: list_all_iff is_cursor_def)
  have lp: "event_loop ev (index_paths s) None (listen (Promise_all ?ps)) 0 (jobs_of (map Get ks))
        (osRecords s) ?st = (?D, Some (osRecords s))"
    by (subst event_loop_batch [OF nc]) (simp add: jobs_of_def served_gets applied_gets)
  have ne: "map snd ?D \<noteq> []"
    using length_deliver [of "listen (Promise_all ?ps)"
        "map (\<lambda>(i, k). success i (retrieved (osRecords s) k)) (enumerate 0 ks) @ [completed]" ?st]
    by auto
  have r: "getMany ev None h db ks
      = \<lparr>opened = [(name h, Readonly)], returned = Inr ?st, trace = map fst ?D,
         states = map snd ?D, after = db\<rparr>"
    unfolding getMany_def sc
    using assms(2) lp [unfolded jobs_of_def]
    by (simp add: run_def objectStore_def Let_def i write_back_same)
  have "outcome (getMany ev None h db ks) = Inr (last (map snd ?D))"
    unfolding r outcome_def using ne by (simp add: last_ConsR del: last.simps)
  also have "last (map snd ?D) = snd (last ?D)"
    using ne by (simp add: last_map)
  also have "\<dots> = (map Resolved (map (retrieved (osRecords s)) ks),
                  Resolved (map (retrieved (osRecords s)) ks))"
    using deliver_all [of "length ks" "[]" ks "retrieved (osRecords s)"] by simp
  finally show ?thesis .
qed

section \<open>setMany is all or nothing, and getMany answers in the order of the keys\<close>

lemma retrieved_stored:
  assumes "k \<in> fst ` set kvs"
  shows "retrieved (foldl (\<lambda>rs p. store_record (fst p) (snd p) rs) rs kvs) k
       = retrieved (rev kvs) k"
proof -
  from assms have "k \<in> dom (map_of (rev kvs))" by (simp add: dom_map_of_conv_image_fst)
  then obtain w where "map_of (rev kvs) k = Some w" by auto
  then show ?thesis by (simp add: retrieved_def map_of_stored map_add_def)
qed

lemma retrieved_distinct:
  assumes "distinct (map fst kvs)"
  shows "map (retrieved (rev kvs)) (map fst kvs) = map Value (map snd kvs)"
proof -
  have "retrieved (rev kvs) (fst p) = Value (snd p)" if "p \<in> set kvs" for p
  proof -
    from assms have "distinct (map fst (rev kvs))" by (simp add: rev_map [symmetric])
    moreover from that have "(fst p, snd p) \<in> set (rev kvs)" by simp
    ultimately have "map_of (rev kvs) (fst p) = Some (snd p)" by (rule map_of_is_SomeI)
    then show ?thesis by (simp add: retrieved_def)
  qed
  then show ?thesis by simp
qed

lemma setMany_commits:
  fixes db :: "('k::linorder, 'v) database"
  assumes "opener h = Connected" and "map_of (objectStores db) (name h) = Some s"
    and "osKeyPath s = Some kp" and "list_all (\<lambda>v. ev kp v \<noteq> None) vs"
  shows "outcome (setMany ev None h db vs) = Inr (Resolved Undefined)"
    and "after (setMany ev None h db vs)
       = write_back db (name h) s
           (Some (foldl (\<lambda>rs p. store_record (fst p) (snd p) rs) (osRecords s) (written ev kp vs)))"
proof -
  let ?tx = "\<lparr>txStore = name h, txMode = Readwrite,
               txRequests = map (\<lambda>v. Put (the (ev kp v)) v) vs\<rparr> :: ('k, 'v) transaction"
  let ?rs = "foldl (\<lambda>rs p. store_record (fst p) (snd p) rs) (osRecords s) (written ev kp vs)"
  note c = setMany_call [where ev = ev and f = None, OF assms]
  have s: "map_of (objectStores db) (txStore ?tx) = Some s" using assms(2) by simp
  have nc: "list_all (\<lambda>j. \<not> is_cursor (fst (snd j))) (jobs_of (txRequests ?tx))"
    by (rule jobs_of_no_cursor) (simp add: list_all_iff is_cursor_def)
  have p: "map (\<lambda>v. Put (the (ev kp v)) v) vs = map (\<lambda>p. Put (fst p) (snd p)) (written ev kp vs)"
    by (simp add: written_def comp_def)
  have a: "applied ev (index_paths s) (jobs_of (txRequests ?tx)) (osRecords s) = ?rs"
    by (simp only: jobs_of_def transaction.select_convs p applied_puts)
  have w: "snd (event_loop ev (index_paths s) None (listen (promisify Transaction)) 0
                  (jobs_of (txRequests ?tx)) (osRecords s) Pending) = Some ?rs"
    by (simp only: event_loop_batch [OF nc] snd_conv a)
  from transaction_call(6) [OF s c w]
  show "outcome (setMany ev None h db vs) = Inr (Resolved Undefined)" .
  from transaction_call(4) [OF s c] w
  show "after (setMany ev None h db vs) = write_back db (name h) s (Some ?rs)" by simp
qed

lemma setMany_aborts:
  fixes db :: "('k::linorder, 'v) database"
  assumes "opener h = Connected" and "map_of (objectStores db) (name h) = Some s"
    and "osKeyPath s = Some kp" and "list_all (\<lambda>v. ev kp v \<noteq> None) vs"
    and "m \<le> length vs"
  shows "after (setMany ev (Some (m, e)) h db vs) = db"
    and "\<exists>r. outcome (setMany ev (Some (m, e)) h db vs) = Inr (Rejected r)"
proof -
  let ?tx = "\<lparr>txStore = name h, txMode = Readwrite,
               txRequests = map (\<lambda>v. Put (the (ev kp v)) v) vs\<rparr> :: ('k, 'v) transaction"
  note c = setMany_call [where ev = ev and f = "Some (m, e)", OF assms(1-4)]
  have s: "map_of (objectStores db) (txStore ?tx) = Some s" using assms(2) by simp
  have nc: "list_all (\<lambda>j. \<not> is_cursor (fst (snd j))) (jobs_of (txRequests ?tx))"
    by (rule jobs_of_no_cursor) (simp add: list_all_iff is_cursor_def)
  have l: "m \<le> 0 + length (jobs_of (txRequests ?tx))"
    using assms(5) by (simp add: jobs_of_def)
  have w: "snd (event_loop ev (index_paths s) (Some (m, e)) (listen (promisify Transaction)) 0
                  (jobs_of (txRequests ?tx)) (osRecords s) Pending) = None"
    using nc _ l by (rule event_loop_aborts) simp
  from transaction_call(4) [OF s c] w
  show "after (setMany ev (Some (m, e)) h db vs) = db" by (simp add: write_back_def)
  from transaction_call(5) [OF s c w]
  show "\<exists>r. outcome (setMany ev (Some (m, e)) h db vs) = Inr (Rejected r)" .
qed

text \<open>
  C2.  On a registered handle whose store exists and has a key path, for a batch in which
  every value has a key at that path: \<open>setMany(values)\<close> opens one read-write
  transaction; if the engine fails at one of the puts or at the commit, the promise is
  rejected and the database is as before; if the engine does not fail, the promise is
  resolved, and \<open>getMany\<close> over the keys of the values, in their order, resolves to the list
  that has at each place the value last written under that key, which is the list of the
  values themselves when their keys are distinct.
\<close>

theorem setMany_all_or_nothing:
  fixes db :: "('k::linorder, 'v) database"
  assumes "opener h = Connected" and "map_of (objectStores db) (name h) = Some s"
    and "osKeyPath s = Some kp" and "list_all (\<lambda>v. ev kp v \<noteq> None) vs"
  shows "opened (setMany ev f h db vs) = [(name h, Readwrite)]
     \<and> (\<forall>m e. f = Some (m, e) \<longrightarrow> m \<le> length vs \<longrightarrow>
          after (setMany ev f h db vs) = db
          \<and> (\<exists>r. outcome (setMany ev f h db vs) = Inr (Rejected r)))
     \<and> outcome (setMany ev None h db vs) = Inr (Resolved Undefined)
     \<and> outcome (getMany ev None h (after (setMany ev None h db vs)) (map fst (written ev kp vs)))
         = Inr (map Resolved (map (retrieved (rev (written ev kp vs))) (map fst (written ev kp vs))),
                Resolved (map (retrieved (rev (written ev kp vs))) (map fst (written ev kp vs))))
     \<and> (distinct (map fst (written ev kp vs)) \<longrightarrow>
          outcome (getMany ev None h (after (setMany ev None h db vs)) (map fst (written ev kp vs)))
            = Inr (map Resolved (map Value vs), Resolved (map Value vs)))"
proof -
  let ?db = "after (setMany ev None h db vs)"
  let ?kvs = "written ev kp vs"
  let ?rs = "foldl (\<lambda>rs p. store_record (fst p) (snd p) rs) (osRecords s) ?kvs"
  have o: "opened (setMany ev f h db vs) = [(name h, Readwrite)]"
    using transaction_call(1) [OF _ setMany_call [where ev = ev and f = f, OF assms]] assms(2) by simp
  have m: "map_of (objectStores ?db) (name h) = Some (s\<lparr>osRecords := ?rs\<rparr>)"
    unfolding setMany_commits(2) [where ev = ev, OF assms] using assms(2) by (rule map_of_write_back)
  have "map (retrieved ?rs) (map fst ?kvs) = map (retrieved (rev ?kvs)) (map fst ?kvs)"
    by (simp add: retrieved_stored)
  with getMany_call [OF assms(1) m, of ev "map fst ?kvs"]
  have g: "outcome (getMany ev None h ?db (map fst ?kvs))
      = Inr (map Resolved (map (retrieved (rev ?kvs)) (map fst ?kvs)),
             Resolved (map (retrieved (rev ?kvs)) (map fst ?kvs)))"
    by simp
  have v: "map snd ?kvs = vs" by (simp add: written_def comp_def)
  have d: "outcome (getMany ev None h ?db (map fst ?kvs))
      = Inr (map Resolved (map Value vs), Resolved (map Value vs))"
    if "distinct (map fst ?kvs)"
    unfolding g retrieved_distinct [OF that] v ..
  from o setMany_aborts [where ev = ev, OF assms] setMany_commits(1) [where ev = ev, OF assms] g d
  show ?thesis by blast
qed

lemma dan_bob_keys: "written path_of ''id'' [dan, bob] = [(4, dan), (2, bob)]"
  by (simp add: written_def path_of_def dan_def bob_def)

theorem setMany_all_or_nothing_witness:
  "opener users_handle = Connected
   \<and> map_of (objectStores app) (name users_handle) = Some users_store
   \<and> osKeyPath users_store = Some ''id''
   \<and> list_all (\<lambda>v. path_of ''id'' v \<noteq> None) [dan, bob]
   \<and> opened (setMany path_of (Some (1, UnknownError)) users_handle app [dan, bob])
       = [(''users'', Readwrite)]
   \<and> after (setMany path_of (Some (1, UnknownError)) users_handle app [dan, bob]) = app
   \<and> (\<exists>r. outcome (setMany path_of (Some (1, UnknownError)) users_handle app [dan, bob])
            = Inr (Rejected r))
   \<and> outcome (setMany path_of None users_handle app [dan, bob]) = Inr (Resolved Undefined)
   \<and> distinct (map fst (written path_of ''id'' [dan, bob]))
   \<and> outcome (getMany path_of None users_handle
                (after (setMany path_of None users_handle app [dan, bob])) [4, 2])
       = Inr ([Resolved (Value dan), Resolved (Value bob)], Resolved [Value dan, Value bob])"
proof -
  have c: "opener users_handle = Connected" by (simp add: users_connected)
  have n: "name users_handle = ''users''" by (simp add: users_connected)
  have k: "osKeyPath users_store = Some ''id''" by (simp add: users_store_def)
  have l: "list_all (\<lambda>v. path_of ''id'' v \<noteq> None) [dan, bob]"
    by (simp add: path_of_def dan_def bob_def)
  have d: "distinct (map fst (written path_of ''id'' [dan, bob]))"
    by (simp add: dan_bob_keys)
  have m: "(1::nat) \<le> length [dan, bob]" by simp
  from c users_in_app k l d m n dan_bob_keys
    setMany_all_or_nothing [where h = users_handle and db = app and s = users_store
      and kp = "''id''" and ev = path_of and vs = "[dan, bob]" and f = "Some (1, UnknownError)"]
  show ?thesis by (simp add: retrieved_def)
qed

theorem setMany_partial_application_counterexample:
  "outcome (setMany path_of None users_handle app [dan, memo]) = Inl DataError
   \<and> after (setMany path_of None users_handle app [dan, memo]) \<noteq> app
   \<and> outcome (get path_of None users_handle app 4) = Inr (Resolved Undefined)
   \<and> outcome (get path_of None users_handle
                (after (setMany path_of None users_handle app [dan, memo])) 4)
       = Inr (Resolved (Value dan))"
proof -
  have c: "opener users_handle = Connected" by (simp add: users_connected)
  let ?c = "setMany path_of None users_handle app [dan, memo]"
  let ?s = "users_store\<lparr>osRecords := [(1, ann), (2, bob), (3, cyd), (4, dan)]\<rparr>"
  have r: "?c = \<lparr>opened = [(''users'', Readwrite)], returned = Inl DataError,
             trace = [success 0 (Key 4), completed], states = [],
             after = app\<lparr>objectStores := [(''users'', ?s), (''notes'', notes_store)]\<rparr>\<rparr>"
  proof -
    have "store users_handle app Readwrite
            (\<lambda>s tx. returning (\<lambda>_. promisify Transaction) (put_each path_of s [dan, memo] tx))
        = (Some \<lparr>txStore = ''users'', txMode = Readwrite, txRequests = [Put 4 dan]\<rparr>,
           Inl DataError :: error + (int, (string \<times> int) list, (int, (string \<times> int) list) result settlement) promise)"
      by (simp add: store_connected [OF c users_in_app] returning_def store_put_def place_def
          users_connected users_store_def path_of_def dan_def memo_def)
    then show ?thesis
      by (simp add: setMany_def run_def objectStore_def stores_of_app users_store_def
          enumerate_simps fault_def perform_def Let_def success_def completed_def requeue_def
          event_loop.simps write_back_def app_def)
  qed
  have m: "map_of (objectStores (after ?c)) (name users_handle) = Some ?s"
    by (simp add: r users_connected)
  have "outcome ?c = Inl DataError" by (simp add: r outcome_def)
  moreover have "after ?c \<noteq> app"
  proof
    assume "after ?c = app"
    with m users_in_app have "?s = users_store" by simp
    then have "osRecords ?s = osRecords users_store" by simp
    then show False by (simp add: users_store_def)
  qed
  moreover have "outcome (get path_of None users_handle app 4) = Inr (Resolved Undefined)"
    by (simp add: get_call [OF c users_in_app] outcome_def users_store_def)
  moreover have "outcome (get path_of None users_handle (after ?c) 4) = Inr (Resolved (Value dan))"
    by (simp add: get_call [OF c m] outcome_def)
  ultimately show ?thesis by simp
qed

section \<open>One transaction for each call, and what settles its promise\<close>

subsection \<open>Listeners that do not hear the transaction\<close>














subsection \<open>The transaction of a call\<close>





subsection \<open>Writes are settled by the transaction\<close>


subsection \<open>Reads are settled by a request\<close>












end
